theory Spec2Isabelle
  imports Complex_Main
begin

section \<open>Numbers, randomness and the p5.js primitives the sketches call\<close>

text \<open>
  The repository holds three p5.js sketches and the frame recorder \<open>capture.js\<close>:
  \<^item> the plain ribbon (greedy random walk, no pulse),
  \<^item> the ribbon with one travelling pulse (the same greedy walk),
  \<^item> the perspective ribbon (depth-first search with back-tracking, viewport fit,
    void filler, several pulses).
  The sketches reuse function names; where their bodies differ the model's names carry the
  suffix \<open>_walk\<close> (greedy walk), \<open>_dfs\<close> (back-tracking sketch), \<open>_plain\<close>,
  \<open>_pulse\<close> or \<open>_persp\<close>.

  JavaScript numbers are doubles. The definitions of the first sections compute on real
  numbers with exact arithmetic; they carry the properties that do not hang on rounding
  (which branch runs, which list is built, which exception is thrown). The section on
  rounded arithmetic gives the generators and the viewport fit again with the rounding of
  doubles after every operation; the properties that speak of an epsilon are stated on
  those. p5's \<open>random\<close> is an oracle: a sequence \<open>rng :: nat \<Rightarrow> real\<close> of raw draws, each in
  \<open>[0, 1)\<close>, read through a cursor that counts the draws consumed so far.
\<close>

definition valid_rng :: "(nat \<Rightarrow> real) \<Rightarrow> bool" where
  "valid_rng rng = (\<forall>n. 0 \<le> rng n \<and> rng n < 1)"

text \<open>\<open>random(max)\<close> and \<open>random(min, max)\<close> of p5.js on a raw draw \<open>u\<close>.\<close>

definition random1 :: "real \<Rightarrow> real \<Rightarrow> real" where
  "random1 hi u = u * hi"

definition random2 :: "real \<Rightarrow> real \<Rightarrow> real \<Rightarrow> real" where
  "random2 lo hi u = (if lo > hi then u * (lo - hi) + hi else u * (hi - lo) + lo)"

definition dist_p5 :: "real \<Rightarrow> real \<Rightarrow> real \<Rightarrow> real \<Rightarrow> real" where
  "dist_p5 x1 y1 x2 y2 = sqrt ((x2 - x1)\<^sup>2 + (y2 - y1)\<^sup>2)"

definition atan2 :: "real \<Rightarrow> real \<Rightarrow> real" where
  "atan2 v u =
     (if 0 < u then arctan (v / u)
      else if u < 0 then (if 0 \<le> v then arctan (v / u) + pi else arctan (v / u) - pi)
      else if 0 < v then pi / 2
      else if v < 0 then - (pi / 2)
      else 0)"

definition lerp :: "real \<Rightarrow> real \<Rightarrow> real \<Rightarrow> real" where
  "lerp start stop amt = amt * (stop - start) + start"

text \<open>The remainder operator \<open>%\<close>: the quotient is truncated, the sign is the dividend's.\<close>

definition js_rem :: "int \<Rightarrow> int \<Rightarrow> int" where
  "js_rem a b = sgn a * (\<bar>a\<bar> mod \<bar>b\<bar>)"

definition js_fmod :: "real \<Rightarrow> real \<Rightarrow> real" where
  "js_fmod a b = a - b * (if 0 \<le> a / b then of_int \<lfloor>a / b\<rfloor> else of_int \<lceil>a / b\<rceil>)"

definition HALF_PI :: real where "HALF_PI = pi / 2"
definition PI :: real where "PI = pi"
definition TWO_PI :: real where "TWO_PI = 2 * pi"

definition CANVAS_W :: real where "CANVAS_W = 1080"
definition CANVAS_H :: real where "CANVAS_H = 1080"

text \<open>p5's \<open>width\<close> and \<open>height\<close>, as \<open>createCanvas(CANVAS_W, CANVAS_H)\<close> sets them.\<close>

definition width :: real where "width = CANVAS_W"
definition height :: real where "height = CANVAS_H"

definition VIEWPORT :: real where "VIEWPORT = 1080"
definition VIEW_PAD :: real where "VIEW_PAD = 20"
definition MIN_R :: real where "MIN_R = 50"
definition MAX_R :: real where "MAX_R = 200"
definition LAYERS :: nat where "LAYERS = 220"
definition STEP_X :: real where "STEP_X = - 1"
definition STEP_Y :: real where "STEP_Y = 1"
definition DEPTH_SCALE :: real where "DEPTH_SCALE = 99 / 100"
definition GAP :: int where "GAP = 6"
definition TICK :: real where "TICK = 1"

section \<open>Data model\<close>

text \<open>A circle object \<open>{x, y, radius, edge}\<close>; only the seed carries \<open>edge\<close>.\<close>

record circle =
  x :: real
  y :: real
  radius :: real
  edge :: "int option"

text \<open>
  An arc segment \<open>{cx, cy, r, a1, a2, cw}\<close>. The first segment's \<open>a1\<close> is read out of a
  four-element array at index \<open>c0.edge\<close>; \<open>None\<close> is JavaScript's \<open>undefined\<close>.
\<close>

record arc =
  cx :: real
  cy :: real
  r :: real
  a1 :: "real option"
  a2 :: real
  cw :: bool

section \<open>The multi-pulse schedule of the perspective sketch\<close>

definition leader :: "nat \<Rightarrow> int" where
  "leader frameCount = js_rem \<lfloor>real frameCount / TICK\<rfloor> (int LAYERS)"

definition pulses :: "nat \<Rightarrow> int" where
  "pulses frameCount = \<lfloor>real_of_int (leader frameCount) / real_of_int GAP\<rfloor> + 1"

definition turquoise :: "nat \<Rightarrow> nat \<Rightarrow> bool" where
  "turquoise frameCount layer =
     (let diff = leader frameCount - int layer
      in 0 \<le> diff \<and> js_rem diff GAP = 0
         \<and> real_of_int diff / real_of_int GAP < real_of_int (pulses frameCount))"

section \<open>The frame recorder (capture.js) and the sketches' hooks into it\<close>

text \<open>
  \<open>capture.js\<close> is a classic script. Its first statement assigns the property
  \<open>window.recPending\<close>; its \<open>let recPending\<close> declares a binding of the script scope, which
  is not a property of \<open>window\<close>. Inside \<open>capture.js\<close> the bare name \<open>recPending\<close> resolves to
  the \<open>let\<close> binding; the sketches read \<open>window.recPending\<close>. The state keeps both.
  \<open>folder\<close> lists the frame numbers stored in the archive's folder, \<open>downloads\<close> counts the
  archives handed to \<open>saveAs\<close>.
\<close>

record capture =
  window_recPending :: bool
  recPending :: bool
  grabCount :: nat
  folder :: "nat list"
  downloads :: nat

definition REC_SECONDS :: nat where "REC_SECONDS = 10"
definition REC_FPS :: nat where "REC_FPS = 60"
definition REC_FRAMES :: nat where "REC_FRAMES = REC_SECONDS * REC_FPS"

definition capture_loaded :: capture where
  "capture_loaded =
     \<lparr>window_recPending = False, recPending = False, grabCount = 0, folder = [], downloads = 0\<rparr>"

definition startCapture :: "capture \<Rightarrow> capture" where
  "startCapture s =
     (if recPending s then s
      else s\<lparr>recPending := True, grabCount := 0, folder := []\<rparr>)"

definition finishCapture :: "capture \<Rightarrow> capture" where
  "finishCapture s =
     (if \<not> recPending s then s
      else s\<lparr>recPending := False, downloads := downloads s + 1\<rparr>)"

definition saveGifFrame :: "capture \<Rightarrow> capture" where
  "saveGifFrame s =
     (if \<not> recPending s then s
      else
        let s1 = s\<lparr>folder := folder s @ [grabCount s]\<rparr>;
            s2 = s1\<lparr>grabCount := grabCount s1 + 1\<rparr>
        in if REC_FRAMES \<le> grabCount s2 then finishCapture s2 else s2)"

text \<open>The last statement of \<open>draw\<close> in the two sketches with a pulse: \<open>if (window.recPending) saveGifFrame();\<close>\<close>

definition draw_capture_hook :: "capture \<Rightarrow> capture" where
  "draw_capture_hook s = (if window_recPending s then saveGifFrame s else s)"

text \<open>\<open>keyPressed\<close> with \<open>key === 'R'\<close>.\<close>

definition keyPressed_R :: "capture \<Rightarrow> capture" where
  "keyPressed_R s = (if \<not> window_recPending s then startCapture s else s)"

section \<open>Geometry helpers\<close>

text \<open>\<open>overlapsAny\<close>: the greedy walk tests the exact sum of radii, the back-tracking sketch
  subtracts the tolerance \<open>0.1\<close>. Both read the global \<open>circles\<close>, here the argument \<open>cs\<close>.\<close>

definition overlapsAny_walk :: "circle list \<Rightarrow> circle \<Rightarrow> bool" where
  "overlapsAny_walk cs nc =
     (\<exists>c \<in> set cs. dist_p5 (x c) (y c) (x nc) (y nc) < radius c + radius nc)"

definition overlapsAny_dfs :: "circle list \<Rightarrow> circle \<Rightarrow> bool" where
  "overlapsAny_dfs cs nc =
     (\<exists>c \<in> set cs. dist_p5 (x c) (y c) (x nc) (y nc) < radius c + radius nc - 1 / 10)"

definition isOutside :: "circle \<Rightarrow> bool" where
  "isOutside c =
     (x c - radius c < 0 \<or> x c + radius c > width \<or>
      y c - radius c < 0 \<or> y c + radius c > height)"

definition fullyOutside :: "circle \<Rightarrow> bool" where
  "fullyOutside c =
     (x c + radius c < 0 \<or> x c - radius c > CANVAS_W \<or>
      y c + radius c < 0 \<or> y c - radius c > CANVAS_H)"

section \<open>Chain generator: the greedy walk\<close>

definition MAX_ATTEMPTS :: nat where "MAX_ATTEMPTS = 8000"
definition MAX_CIRCLES_walk :: nat where "MAX_CIRCLES_walk = 150"

text \<open>The seed and the number of raw draws it used: \<open>random\<close> is called for \<open>x0\<close> only when
  the edge is neither right nor left, for \<open>y0\<close> only when it is neither top nor bottom.\<close>

definition seed_walk :: "(nat \<Rightarrow> real) \<Rightarrow> circle \<times> nat" where
  "seed_walk rng =
     (let e = \<lfloor>random1 4 (rng 0)\<rfloor>;
          r0 = random2 MIN_R MAX_R (rng 1);
          (x0, p) = (if e = 1 then (width - r0, 2)
                     else if e = 3 then (r0, 2)
                     else (random2 r0 (width - r0) (rng 2), 3));
          (y0, q) = (if e = 0 then (r0, p)
                     else if e = 2 then (height - r0, p)
                     else (random2 r0 (height - r0) (rng p), p + 1))
      in (\<lparr>x = x0, y = y0, radius = r0, edge = Some e\<rparr>, q))"

definition safeAngle :: "circle \<Rightarrow> real \<Rightarrow> real" where
  "safeAngle c u =
     (let (minA, maxA) = (if x c - radius c \<le> 0 then (- HALF_PI, HALF_PI)
                          else if width \<le> x c + radius c then (HALF_PI, PI + HALF_PI)
                          else (0, TWO_PI));
          (minB, maxB) = (if y c - radius c \<le> 0 then (max minA 0, min maxA PI)
                          else if height \<le> y c + radius c then (max minA PI, min maxA TWO_PI)
                          else (minA, maxA))
      in random2 minB maxB u)"

text \<open>The candidate of one turn of the loop: the radius is drawn first, then the angle.\<close>

definition next_walk :: "(nat \<Rightarrow> real) \<Rightarrow> circle list \<Rightarrow> nat \<Rightarrow> circle" where
  "next_walk rng cs pos =
     (let lst = last cs;
          newR = random2 MIN_R MAX_R (rng pos);
          ang = (if length cs < 30 then safeAngle lst (rng (pos + 1))
                 else random1 TWO_PI (rng (pos + 1)));
          d = radius lst + newR;
          nx = x lst + cos ang * d;
          ny = y lst + sin ang * d
      in \<lparr>x = nx, y = ny, radius = newR, edge = None\<rparr>)"

text \<open>
  The loop \<open>while (++attempts < MAX_ATTEMPTS && circles.length < MAX_CIRCLES)\<close>. The counter
  is incremented before it is tested, also on the test that ends the loop; the result
  holds the chain and the final counter.
\<close>

function grow_walk :: "(nat \<Rightarrow> real) \<Rightarrow> circle list \<Rightarrow> nat \<Rightarrow> nat \<Rightarrow> circle list \<times> nat" where
  "grow_walk rng cs attempts pos =
     (if attempts + 1 < MAX_ATTEMPTS \<and> length cs < MAX_CIRCLES_walk then
        (if overlapsAny_walk cs (next_walk rng cs pos)
         then grow_walk rng cs (attempts + 1) (pos + 2)
         else if 30 \<le> length (cs @ [next_walk rng cs pos]) \<and> isOutside (next_walk rng cs pos)
         then (cs @ [next_walk rng cs pos], attempts + 1)
         else grow_walk rng (cs @ [next_walk rng cs pos]) (attempts + 1) (pos + 2))
      else (cs, attempts + 1))"
  by pat_completeness auto
termination
  by (relation "measure (\<lambda>(rng, cs, attempts, pos). MAX_ATTEMPTS - attempts)") auto

declare grow_walk.simps [simp del]

definition walk_run :: "(nat \<Rightarrow> real) \<Rightarrow> circle list \<times> nat" where
  "walk_run rng = grow_walk rng [fst (seed_walk rng)] 0 (snd (seed_walk rng))"

definition generateTouchingCircles_walk :: "(nat \<Rightarrow> real) \<Rightarrow> circle list" where
  "generateTouchingCircles_walk rng = fst (walk_run rng)"

section \<open>Chain generator: depth-first search with back-tracking\<close>

text \<open>
  The state the recursive closure \<open>dfs\<close> shares with \<open>generateTouchingCircles\<close>: the
  global \<open>circles\<close>, the counters, the best chain kept so far, and the cursor into the raw
  draws.
\<close>

record search =
  circles :: "circle list"
  totalTries :: nat
  outsideCount :: int
  bestCircles :: "circle list"
  bestOutsideCt :: int
  cursor :: nat

definition MAX_CIRCLES_dfs :: nat where "MAX_CIRCLES_dfs = 300"
definition MAX_TOTAL_TRIES :: nat where "MAX_TOTAL_TRIES = 40000"
definition ANGLE_STEP :: real where "ANGLE_STEP = TWO_PI / 64"
definition TARGET_OUTSIDE :: int where "TARGET_OUTSIDE = 5"

definition count_try :: "search \<Rightarrow> search" where
  "count_try s = s\<lparr>totalTries := totalTries s + 1\<rparr>"

definition record_best :: "search \<Rightarrow> search" where
  "record_best s =
     (if TARGET_OUTSIDE \<le> outsideCount s \<and> length (bestCircles s) < length (circles s)
      then s\<lparr>bestCircles := circles s, bestOutsideCt := outsideCount s\<rparr>
      else s)"

definition candidate :: "circle \<Rightarrow> real \<Rightarrow> real \<Rightarrow> circle" where
  "candidate lst ang newR =
     (let dist0 = radius lst;
          nx = x lst + cos ang * (dist0 + newR);
          ny = y lst + sin ang * (dist0 + newR)
      in \<lparr>x = nx, y = ny, radius = newR, edge = None\<rparr>)"

definition draw_radius :: "(nat \<Rightarrow> real) \<Rightarrow> search \<Rightarrow> real" where
  "draw_radius rng s = random2 MIN_R MAX_R (rng (cursor s))"

definition advance :: "search \<Rightarrow> search" where
  "advance s = s\<lparr>cursor := cursor s + 1\<rparr>"

definition push :: "circle \<Rightarrow> search \<Rightarrow> search" where
  "push next s =
     (let s1 = s\<lparr>circles := circles s @ [next]\<rparr>
      in if fullyOutside next then s1\<lparr>outsideCount := outsideCount s1 + 1\<rparr> else s1)"

definition pop :: "circle \<Rightarrow> search \<Rightarrow> search" where
  "pop next s =
     (let s1 = (if fullyOutside next then s\<lparr>outsideCount := outsideCount s - 1\<rparr> else s)
      in s1\<lparr>circles := butlast (circles s1)\<rparr>)"

text \<open>
  \<open>dfs\<close> and its loop \<open>for (ang = 0; ang < TWO_PI; ang += ANGLE_STEP)\<close>, here \<open>fan\<close>, whose
  arguments are the tail circle \<open>last\<close> read before the loop and the current angle. Each
  turn draws a radius; a candidate that overlaps nothing is pushed, searched below, and
  popped again.
\<close>

function dfs :: "(nat \<Rightarrow> real) \<Rightarrow> search \<Rightarrow> search"
  and fan :: "(nat \<Rightarrow> real) \<Rightarrow> circle \<Rightarrow> real \<Rightarrow> search \<Rightarrow> search" where
  "dfs rng s =
     (if MAX_TOTAL_TRIES < totalTries (count_try s) then count_try s
      else if MAX_CIRCLES_dfs \<le> length (circles (record_best (count_try s)))
      then record_best (count_try s)
      else fan rng (last (circles (record_best (count_try s)))) 0 (record_best (count_try s)))"
| "fan rng lst ang s =
     (if \<not> ang < TWO_PI then s
      else if overlapsAny_dfs (circles (advance s)) (candidate lst ang (draw_radius rng s))
      then fan rng lst (ang + ANGLE_STEP) (advance s)
      else fan rng lst (ang + ANGLE_STEP)
             (pop (candidate lst ang (draw_radius rng s))
                (dfs rng (push (candidate lst ang (draw_radius rng s)) (advance s)))))"
  by pat_completeness auto

text \<open>Termination: below a call of \<open>dfs\<close> the chain is as long as it was on entry, so the
  turns of the loop left at a depth, and the depths left below the cap, decrease.\<close>

lemma circles_simps [simp]:
  "circles (count_try s) = circles s"
  "circles (record_best s) = circles s"
  "circles (advance s) = circles s"
  "circles (push next s) = circles s @ [next]"
  "circles (pop next s) = butlast (circles s)"
  by (simp_all add: count_try_def record_best_def advance_def push_def pop_def Let_def)

lemma dfs_fan_circles_partial:
  "dfs_fan_dom (Inl (rng, s)) \<Longrightarrow> circles (dfs rng s) = circles s"
  "dfs_fan_dom (Inr (rng, lst, ang, s)) \<Longrightarrow> circles (fan rng lst ang s) = circles s"
proof (induct rng s and rng lst ang s rule: dfs_fan.pinduct)
  case (1 rng s)
  then show ?case by (simp add: dfs.psimps)
next
  case (2 rng lst ang s)
  then show ?case by (simp add: fan.psimps)
qed

lemma fan_steps_left:
  assumes "ang < TWO_PI"
  shows "nat \<lceil>(TWO_PI - (ang + ANGLE_STEP)) / ANGLE_STEP\<rceil> < nat \<lceil>(TWO_PI - ang) / ANGLE_STEP\<rceil>"
proof -
  have step: "0 < ANGLE_STEP" by (simp add: ANGLE_STEP_def TWO_PI_def)
  have "(TWO_PI - (ang + ANGLE_STEP)) / ANGLE_STEP = (TWO_PI - ang) / ANGLE_STEP - 1"
    using step by (simp add: field_simps)
  moreover have "0 < (TWO_PI - ang) / ANGLE_STEP"
    using assms step by simp
  ultimately show ?thesis
    by simp
qed

lemma fan_steps_start: "nat \<lceil>TWO_PI / ANGLE_STEP\<rceil> = 64"
  by (simp add: ANGLE_STEP_def TWO_PI_def)

termination dfs
proof (relation "measures
    [\<lambda>v. case v of Inl (rng, s) \<Rightarrow> 301 - length (circles s)
                  | Inr (rng, lst, ang, s) \<Rightarrow> 301 - length (circles s),
     \<lambda>v. case v of Inl (rng, s) \<Rightarrow> (if MAX_CIRCLES_dfs \<le> length (circles s) then 0 else 100)
                  | Inr (rng, lst, ang, s) \<Rightarrow> 1 + nat \<lceil>(TWO_PI - ang) / ANGLE_STEP\<rceil>]",
       goal_cases)
  case 1
  then show ?case by simp
next
  case (2 rng s)
  then show ?case by (simp add: fan_steps_start)
next
  case (3 rng lst ang s)
  then show ?case using fan_steps_left[of ang] by simp
next
  case (4 rng lst ang s)
  then show ?case by (auto simp: MAX_CIRCLES_dfs_def)
next
  case (5 rng lst ang s)
  then show ?case using fan_steps_left[of ang] by (simp add: dfs_fan_circles_partial)
qed

declare dfs.simps [simp del] fan.simps [simp del]

definition seed_dfs :: "(nat \<Rightarrow> real) \<Rightarrow> circle \<times> nat" where
  "seed_dfs rng =
     (let e = \<lfloor>random1 4 (rng 0)\<rfloor>;
          r0 = random2 MIN_R MAX_R (rng 1);
          (x0, p) = (if e = 1 then (CANVAS_W - r0 * (1 / 2), 2)
                     else if e = 3 then (r0 * (1 / 2), 2)
                     else (random2 (r0 * (1 / 2)) (CANVAS_W - r0 * (1 / 2)) (rng 2), 3));
          (y0, q) = (if e = 0 then (r0 * (1 / 2), p)
                     else if e = 2 then (CANVAS_H - r0 * (1 / 2), p)
                     else (random2 (r0 * (1 / 2)) (CANVAS_H - r0 * (1 / 2)) (rng p), p + 1))
      in (\<lparr>x = x0, y = y0, radius = r0, edge = Some e\<rparr>, q))"

definition search_start :: "(nat \<Rightarrow> real) \<Rightarrow> search" where
  "search_start rng =
     (let seed = fst (seed_dfs rng);
          n = (if fullyOutside seed then 1 else 0)
      in \<lparr>circles = [seed], totalTries = 0, outsideCount = n,
          bestCircles = [seed], bestOutsideCt = n, cursor = snd (seed_dfs rng)\<rparr>)"

text \<open>After the search the global \<open>circles\<close> is emptied and refilled from \<open>bestCircles\<close>.\<close>

definition generateTouchingCircles_dfs :: "(nat \<Rightarrow> real) \<Rightarrow> circle list" where
  "generateTouchingCircles_dfs rng = bestCircles (dfs rng (search_start rng))"

section \<open>Outline-arc construction\<close>

text \<open>\<open>[-HALF_PI, 0, HALF_PI, PI][c0.edge]\<close>: an index that is missing or out of range
  reads \<open>undefined\<close>.\<close>

definition edgeAngle :: "circle \<Rightarrow> real option" where
  "edgeAngle c0 =
     (case edge c0 of
        None \<Rightarrow> None
      | Some e \<Rightarrow> if 0 \<le> e \<and> e < 4 then Some ([- HALF_PI, 0, HALF_PI, PI] ! nat e) else None)"

definition first_arc :: "circle list \<Rightarrow> arc" where
  "first_arc cs =
     (let c0 = cs ! 0; c1 = cs ! 1;
          toSecond = atan2 (y c1 - y c0) (x c1 - x c0)
      in \<lparr>cx = x c0, cy = y c0, r = radius c0, a1 = edgeAngle c0, a2 = toSecond, cw = True\<rparr>)"

text \<open>The body of the loop \<open>for (i = 1; i < circles.length - 1; i++)\<close>.\<close>

definition chain_arc :: "circle list \<Rightarrow> nat \<Rightarrow> arc" where
  "chain_arc cs i =
     (let prev = cs ! (i - 1); cur = cs ! i; nxt = cs ! (i + 1)
      in \<lparr>cx = x cur, cy = y cur, r = radius cur,
          a1 = Some (atan2 (y cur - y prev) (x cur - x prev) + PI),
          a2 = atan2 (y nxt - y cur) (x nxt - x cur),
          cw = (i mod 2 = 0)\<rparr>)"

definition buildArcList :: "circle list \<Rightarrow> arc list" where
  "buildArcList cs =
     (if length cs < 2 then []
      else first_arc cs # map (chain_arc cs) [1 ..< length cs - 1])"

section \<open>The layered renderer\<close>

text \<open>
  A call \<open>arc(x, y, w, h, start, stop)\<close> of p5; an angle computed from \<open>undefined\<close> is
  \<open>NaN\<close>, here \<open>None\<close>. A frame is the list of the arcs it strokes, far layer first, each
  with its layer, its shift and zoom, the stroke colour and the stroke weight.
\<close>

record p5_arc =
  arc_x :: real
  arc_y :: real
  arc_w :: real
  arc_h :: real
  start :: "real option"
  stop :: "real option"

datatype colour = Black | Turquoise | White real

record stroked =
  layer_of :: nat
  shift :: "real \<times> real"
  zoom :: real
  stroke :: colour
  strokeWeight :: real
  shape :: p5_arc

definition wrap_angle :: "real \<Rightarrow> real" where
  "wrap_angle a = js_fmod (js_fmod a TWO_PI + TWO_PI) TWO_PI"

text \<open>\<open>drawArcSegment\<close> after the shift \<open>(ox, oy)\<close> of the centre: none in the flat
  sketches, half the canvas in the perspective sketch. A comparison with \<open>NaN\<close> is false.\<close>

definition arc_call :: "real \<Rightarrow> real \<Rightarrow> arc \<Rightarrow> p5_arc" where
  "arc_call ox oy seg =
     (let u = cx seg - ox; v = cy seg - oy;
          b1 = map_option wrap_angle (a1 seg);
          b2 = wrap_angle (a2 seg)
      in if cw seg then
           \<lparr>arc_x = u, arc_y = v, arc_w = r seg * 2, arc_h = r seg * 2, start = b1,
            stop = (case b1 of None \<Rightarrow> Some b2
                    | Some b \<Rightarrow> Some (if b2 \<le> b then b2 + TWO_PI else b2))\<rparr>
         else
           \<lparr>arc_x = u, arc_y = v, arc_w = r seg * 2, arc_h = r seg * 2, start = Some b2,
            stop = (case b1 of None \<Rightarrow> None
                    | Some b \<Rightarrow> Some (if b \<le> b2 then b + TWO_PI else b))\<rparr>)"

definition drawArcSegment_flat :: "arc \<Rightarrow> p5_arc" where
  "drawArcSegment_flat seg = arc_call 0 0 seg"

definition drawArcSegment_persp :: "arc \<Rightarrow> p5_arc" where
  "drawArcSegment_persp seg = arc_call (width / 2) (height / 2) seg"

definition WHITE_W_flat :: real where "WHITE_W_flat = 2"
definition BLACK_W_flat :: real where "BLACK_W_flat = 3"
definition BLACK_W_persp :: real where "BLACK_W_persp = 2"
definition WHITE_W_persp :: real where "WHITE_W_persp = 1"

text \<open>The loop \<open>for (layer = LAYERS - 1; layer >= 0; layer--)\<close> visits \<open>rev [0 ..< LAYERS]\<close>.\<close>

definition draw_plain :: "arc list \<Rightarrow> stroked list" where
  "draw_plain arcs =
     concat (map (\<lambda>layer.
        let sh = (real layer * STEP_X, real layer * STEP_Y);
            t = real layer / (real LAYERS - 1);
            alpha = lerp 255 0 t
        in map (\<lambda>seg. \<lparr>layer_of = layer, shift = sh, zoom = 1, stroke = Black,
                        strokeWeight = BLACK_W_flat, shape = drawArcSegment_flat seg\<rparr>) arcs
           @ map (\<lambda>seg. \<lparr>layer_of = layer, shift = sh, zoom = 1, stroke = White alpha,
                        strokeWeight = WHITE_W_flat, shape = drawArcSegment_flat seg\<rparr>) arcs)
       (rev [0 ..< LAYERS]))"

definition activeLayer :: "nat \<Rightarrow> int" where
  "activeLayer frameCount = js_rem \<lfloor>real frameCount / TICK\<rfloor> (int LAYERS)"

definition draw_pulse :: "arc list \<Rightarrow> nat \<Rightarrow> stroked list" where
  "draw_pulse arcs frameCount =
     concat (map (\<lambda>layer.
        let sh = (real layer * STEP_X, real layer * STEP_Y);
            colr = (if int layer = activeLayer frameCount then Turquoise
                    else White (lerp 255 0 (real layer / (real LAYERS - 1)) - 25))
        in map (\<lambda>seg. \<lparr>layer_of = layer, shift = sh, zoom = 1, stroke = Black,
                        strokeWeight = BLACK_W_flat, shape = drawArcSegment_flat seg\<rparr>) arcs
           @ map (\<lambda>seg. \<lparr>layer_of = layer, shift = sh, zoom = 1, stroke = colr,
                        strokeWeight = WHITE_W_flat, shape = drawArcSegment_flat seg\<rparr>) arcs)
       (rev [0 ..< LAYERS]))"

definition draw_persp :: "arc list \<Rightarrow> nat \<Rightarrow> stroked list" where
  "draw_persp arcs frameCount =
     concat (map (\<lambda>layer.
        let sh = (width / 2, height / 2);
            s = DEPTH_SCALE ^ layer;
            bodyW = BLACK_W_persp / s;
            outlineW = WHITE_W_persp / s;
            colr = (if turquoise frameCount layer then Turquoise
                    else White (lerp 255 0 (real layer / (real LAYERS - 1)) - 25))
        in map (\<lambda>seg. \<lparr>layer_of = layer, shift = sh, zoom = s, stroke = Black,
                        strokeWeight = bodyW, shape = drawArcSegment_persp seg\<rparr>) arcs
           @ map (\<lambda>seg. \<lparr>layer_of = layer, shift = sh, zoom = s, stroke = colr,
                        strokeWeight = outlineW, shape = drawArcSegment_persp seg\<rparr>) arcs)
       (rev [0 ..< LAYERS]))"

section \<open>Viewport fit\<close>

text \<open>
  The bounding-box loop starts from \<open>Infinity\<close> and \<open>-Infinity\<close>; \<open>None\<close> is that start, which
  the first circle replaces (\<open>min(Infinity, v) = v\<close>).
\<close>

definition grow_box ::
  "circle \<Rightarrow> (real \<times> real \<times> real \<times> real) option \<Rightarrow> (real \<times> real \<times> real \<times> real) option" where
  "grow_box c b =
     (case b of
        None \<Rightarrow> Some (x c - radius c, x c + radius c, y c - radius c, y c + radius c)
      | Some (minX, maxX, minY, maxY) \<Rightarrow>
          Some (min minX (x c - radius c), max maxX (x c + radius c),
                min minY (y c - radius c), max maxY (y c + radius c)))"

definition bounding_box :: "circle list \<Rightarrow> (real \<times> real \<times> real \<times> real) option" where
  "bounding_box cs = fold grow_box cs None"

text \<open>\<open>min(1, min(limit / bw, limit / bh))\<close>; a quotient by zero is \<open>Infinity\<close> and drops
  out of the minimum.\<close>

definition fit_scale :: "real \<Rightarrow> real \<Rightarrow> real" where
  "fit_scale bw bh =
     (let limit = VIEWPORT - VIEW_PAD * 2
      in if bw = 0 \<and> bh = 0 then 1
         else if bw = 0 then min 1 (limit / bh)
         else if bh = 0 then min 1 (limit / bw)
         else min 1 (min (limit / bw) (limit / bh)))"

definition fitRibbonToViewport :: "circle list \<Rightarrow> circle list" where
  "fitRibbonToViewport cs =
     (case bounding_box cs of
        None \<Rightarrow> cs
      | Some (minX, maxX, minY, maxY) \<Rightarrow>
          let bw = maxX - minX; bh = maxY - minY;
              scale = fit_scale bw bh;
              mx = (minX + maxX) * (1 / 2);
              my = (minY + maxY) * (1 / 2)
          in map (\<lambda>c. c\<lparr>x := (x c - mx) * scale + CANVAS_W * (1 / 2),
                         y := (y c - my) * scale + CANVAS_H * (1 / 2),
                         radius := radius c * scale\<rparr>) cs)"

section \<open>Rounded arithmetic\<close>

text \<open>
  JavaScript numbers are IEEE 754 doubles: the result of an arithmetic operation is the
  exact result rounded to the nearest double. \<open>rounds rnd\<close> is what the sketches' numbers
  need of that rounding \<open>rnd\<close>: below the overflow threshold the rounded value differs from
  the exact one by at most the relative error \<open>2\<^sup>-\<^sup>5\<^sup>3\<close> plus the absolute error \<open>2\<^sup>-\<^sup>1\<^sup>0\<^sup>7\<^sup>5\<close> of
  the subnormal range. The definitions above compute on exact reals; the definitions with
  the suffix \<open>_fl\<close> are the same functions with the rounding applied after every operation
  of the source.
\<close>

definition rounds :: "(real \<Rightarrow> real) \<Rightarrow> bool" where
  "rounds rnd = (\<forall>v. \<bar>v\<bar> \<le> 2 ^ 1023 \<longrightarrow> \<bar>rnd v - v\<bar> \<le> \<bar>v\<bar> / 2 ^ 53 + 1 / 2 ^ 1075)"

text \<open>\<open>fitRibbonToViewport\<close> with every operation rounded; comparisons, \<open>min\<close> and \<open>max\<close> are
  exact on doubles.\<close>

definition grow_box_fl ::
  "(real \<Rightarrow> real) \<Rightarrow> circle \<Rightarrow> (real \<times> real \<times> real \<times> real) option
     \<Rightarrow> (real \<times> real \<times> real \<times> real) option" where
  "grow_box_fl rnd c b =
     (case b of
        None \<Rightarrow> Some (rnd (x c - radius c), rnd (x c + radius c),
                      rnd (y c - radius c), rnd (y c + radius c))
      | Some (minX, maxX, minY, maxY) \<Rightarrow>
          Some (min minX (rnd (x c - radius c)), max maxX (rnd (x c + radius c)),
                min minY (rnd (y c - radius c)), max maxY (rnd (y c + radius c))))"

definition bounding_box_fl :: "(real \<Rightarrow> real) \<Rightarrow> circle list \<Rightarrow> (real \<times> real \<times> real \<times> real) option" where
  "bounding_box_fl rnd cs = fold (grow_box_fl rnd) cs None"

definition fit_scale_fl :: "(real \<Rightarrow> real) \<Rightarrow> real \<Rightarrow> real \<Rightarrow> real" where
  "fit_scale_fl rnd bw bh =
     (let limit = rnd (VIEWPORT - rnd (VIEW_PAD * 2))
      in if bw = 0 \<and> bh = 0 then 1
         else if bw = 0 then min 1 (rnd (limit / bh))
         else if bh = 0 then min 1 (rnd (limit / bw))
         else min 1 (min (rnd (limit / bw)) (rnd (limit / bh))))"

definition fitRibbonToViewport_fl :: "(real \<Rightarrow> real) \<Rightarrow> circle list \<Rightarrow> circle list" where
  "fitRibbonToViewport_fl rnd cs =
     (case bounding_box_fl rnd cs of
        None \<Rightarrow> cs
      | Some (minX, maxX, minY, maxY) \<Rightarrow>
          let bw = rnd (maxX - minX); bh = rnd (maxY - minY);
              scale = fit_scale_fl rnd bw bh;
              mx = rnd (rnd (minX + maxX) * (1 / 2));
              my = rnd (rnd (minY + maxY) * (1 / 2))
          in map (\<lambda>c. c\<lparr>x := rnd (rnd (rnd (x c - mx) * scale) + rnd (CANVAS_W * (1 / 2))),
                         y := rnd (rnd (rnd (y c - my) * scale) + rnd (CANVAS_H * (1 / 2))),
                         radius := rnd (radius c * scale)\<rparr>) cs)"

text \<open>
  The library functions the generators call are implementation-approximated: \<open>cos\<close>,
  \<open>sin\<close> and the \<open>hypot\<close> inside p5's \<open>dist(x1, y1, x2, y2) = hypot(x2 - x1, y2 - y1)\<close>.
  A \<open>machine\<close> is the rounding together with these three functions; \<open>ieee m\<close> asks the
  rounding to meet \<open>rounds\<close>, the computed cosine and sine to be within \<open>2\<^sup>-\<^sup>5\<^sup>0\<close> of the true
  ones, and the computed \<open>hypot\<close> to have a relative error of at most \<open>2\<^sup>-\<^sup>5\<^sup>0\<close>.
\<close>

record machine =
  round_m :: "real \<Rightarrow> real"
  cos_m :: "real \<Rightarrow> real"
  sin_m :: "real \<Rightarrow> real"
  hypot_m :: "real \<Rightarrow> real \<Rightarrow> real"

definition ieee :: "machine \<Rightarrow> bool" where
  "ieee m =
     (rounds (round_m m)
      \<and> (\<forall>a. \<bar>cos_m m a - cos a\<bar> \<le> 1 / 2 ^ 50 \<and> \<bar>sin_m m a - sin a\<bar> \<le> 1 / 2 ^ 50)
      \<and> (\<forall>u v. \<bar>u\<bar> \<le> 2 ^ 500 \<and> \<bar>v\<bar> \<le> 2 ^ 500
             \<longrightarrow> \<bar>hypot_m m u v - sqrt (u\<^sup>2 + v\<^sup>2)\<bar> \<le> sqrt (u\<^sup>2 + v\<^sup>2) / 2 ^ 50))"

text \<open>p5's \<open>random\<close>, \<open>dist\<close> and angle constants (\<open>PI = Math.PI\<close>, \<open>HALF_PI = Math.PI / 2\<close>,
  \<open>TWO_PI = Math.PI * 2\<close>) on the machine.\<close>

definition random1_fl :: "machine \<Rightarrow> real \<Rightarrow> real \<Rightarrow> real" where
  "random1_fl m hi u = round_m m (u * hi)"

definition random2_fl :: "machine \<Rightarrow> real \<Rightarrow> real \<Rightarrow> real \<Rightarrow> real" where
  "random2_fl m lo hi u =
     (if lo > hi then round_m m (round_m m (u * round_m m (lo - hi)) + hi)
      else round_m m (round_m m (u * round_m m (hi - lo)) + lo))"

definition dist_fl :: "machine \<Rightarrow> real \<Rightarrow> real \<Rightarrow> real \<Rightarrow> real \<Rightarrow> real" where
  "dist_fl m x1 y1 x2 y2 = hypot_m m (round_m m (x2 - x1)) (round_m m (y2 - y1))"

definition PI_fl :: "machine \<Rightarrow> real" where "PI_fl m = round_m m pi"
definition HALF_PI_fl :: "machine \<Rightarrow> real" where "HALF_PI_fl m = round_m m (PI_fl m / 2)"
definition TWO_PI_fl :: "machine \<Rightarrow> real" where "TWO_PI_fl m = round_m m (PI_fl m * 2)"

text \<open>The greedy walk on the machine.\<close>

definition overlapsAny_walk_fl :: "machine \<Rightarrow> circle list \<Rightarrow> circle \<Rightarrow> bool" where
  "overlapsAny_walk_fl m cs nc =
     (\<exists>c \<in> set cs. dist_fl m (x c) (y c) (x nc) (y nc) < round_m m (radius c + radius nc))"

definition isOutside_fl :: "machine \<Rightarrow> circle \<Rightarrow> bool" where
  "isOutside_fl m c =
     (round_m m (x c - radius c) < 0 \<or> round_m m (x c + radius c) > width \<or>
      round_m m (y c - radius c) < 0 \<or> round_m m (y c + radius c) > height)"

definition seed_walk_fl :: "machine \<Rightarrow> (nat \<Rightarrow> real) \<Rightarrow> circle \<times> nat" where
  "seed_walk_fl m rng =
     (let e = \<lfloor>random1_fl m 4 (rng 0)\<rfloor>;
          r0 = random2_fl m MIN_R MAX_R (rng 1);
          (x0, p) = (if e = 1 then (round_m m (width - r0), 2)
                     else if e = 3 then (r0, 2)
                     else (random2_fl m r0 (round_m m (width - r0)) (rng 2), 3));
          (y0, q) = (if e = 0 then (r0, p)
                     else if e = 2 then (round_m m (height - r0), p)
                     else (random2_fl m r0 (round_m m (height - r0)) (rng p), p + 1))
      in (\<lparr>x = x0, y = y0, radius = r0, edge = Some e\<rparr>, q))"

definition safeAngle_fl :: "machine \<Rightarrow> circle \<Rightarrow> real \<Rightarrow> real" where
  "safeAngle_fl m c u =
     (let (minA, maxA) =
            (if round_m m (x c - radius c) \<le> 0 then (- HALF_PI_fl m, HALF_PI_fl m)
             else if width \<le> round_m m (x c + radius c)
             then (HALF_PI_fl m, round_m m (PI_fl m + HALF_PI_fl m))
             else (0, TWO_PI_fl m));
          (minB, maxB) =
            (if round_m m (y c - radius c) \<le> 0 then (max minA 0, min maxA (PI_fl m))
             else if height \<le> round_m m (y c + radius c)
             then (max minA (PI_fl m), min maxA (TWO_PI_fl m))
             else (minA, maxA))
      in random2_fl m minB maxB u)"

definition next_walk_fl :: "machine \<Rightarrow> (nat \<Rightarrow> real) \<Rightarrow> circle list \<Rightarrow> nat \<Rightarrow> circle" where
  "next_walk_fl m rng cs pos =
     (let lst = last cs;
          newR = random2_fl m MIN_R MAX_R (rng pos);
          ang = (if length cs < 30 then safeAngle_fl m lst (rng (pos + 1))
                 else random1_fl m (TWO_PI_fl m) (rng (pos + 1)));
          d = round_m m (radius lst + newR);
          nx = round_m m (x lst + round_m m (cos_m m ang * d));
          ny = round_m m (y lst + round_m m (sin_m m ang * d))
      in \<lparr>x = nx, y = ny, radius = newR, edge = None\<rparr>)"

function grow_walk_fl ::
  "machine \<Rightarrow> (nat \<Rightarrow> real) \<Rightarrow> circle list \<Rightarrow> nat \<Rightarrow> nat \<Rightarrow> circle list \<times> nat" where
  "grow_walk_fl m rng cs attempts pos =
     (if attempts + 1 < MAX_ATTEMPTS \<and> length cs < MAX_CIRCLES_walk then
        (if overlapsAny_walk_fl m cs (next_walk_fl m rng cs pos)
         then grow_walk_fl m rng cs (attempts + 1) (pos + 2)
         else if 30 \<le> length (cs @ [next_walk_fl m rng cs pos])
                 \<and> isOutside_fl m (next_walk_fl m rng cs pos)
         then (cs @ [next_walk_fl m rng cs pos], attempts + 1)
         else grow_walk_fl m rng (cs @ [next_walk_fl m rng cs pos]) (attempts + 1) (pos + 2))
      else (cs, attempts + 1))"
  by pat_completeness auto
termination
  by (relation "measure (\<lambda>(m, rng, cs, attempts, pos). MAX_ATTEMPTS - attempts)") auto

declare grow_walk_fl.simps [simp del]

definition generateTouchingCircles_walk_fl :: "machine \<Rightarrow> (nat \<Rightarrow> real) \<Rightarrow> circle list" where
  "generateTouchingCircles_walk_fl m rng =
     fst (grow_walk_fl m rng [fst (seed_walk_fl m rng)] 0 (snd (seed_walk_fl m rng)))"

text \<open>The back-tracking search on the machine. The literal \<open>0.1\<close> is the double nearest
  to \<open>1/10\<close>.\<close>

definition fullyOutside_fl :: "machine \<Rightarrow> circle \<Rightarrow> bool" where
  "fullyOutside_fl m c =
     (round_m m (x c + radius c) < 0 \<or> round_m m (x c - radius c) > CANVAS_W \<or>
      round_m m (y c + radius c) < 0 \<or> round_m m (y c - radius c) > CANVAS_H)"

definition overlapsAny_dfs_fl :: "machine \<Rightarrow> circle list \<Rightarrow> circle \<Rightarrow> bool" where
  "overlapsAny_dfs_fl m cs nc =
     (\<exists>c \<in> set cs. dist_fl m (x c) (y c) (x nc) (y nc)
                      < round_m m (round_m m (radius c + radius nc) - round_m m (1 / 10)))"

definition candidate_fl :: "machine \<Rightarrow> circle \<Rightarrow> real \<Rightarrow> real \<Rightarrow> circle" where
  "candidate_fl m lst ang newR =
     (let dist0 = radius lst;
          nx = round_m m (x lst + round_m m (cos_m m ang * round_m m (dist0 + newR)));
          ny = round_m m (y lst + round_m m (sin_m m ang * round_m m (dist0 + newR)))
      in \<lparr>x = nx, y = ny, radius = newR, edge = None\<rparr>)"

definition draw_radius_fl :: "machine \<Rightarrow> (nat \<Rightarrow> real) \<Rightarrow> search \<Rightarrow> real" where
  "draw_radius_fl m rng s = random2_fl m MIN_R MAX_R (rng (cursor s))"

definition push_fl :: "machine \<Rightarrow> circle \<Rightarrow> search \<Rightarrow> search" where
  "push_fl m next s =
     (let s1 = s\<lparr>circles := circles s @ [next]\<rparr>
      in if fullyOutside_fl m next then s1\<lparr>outsideCount := outsideCount s1 + 1\<rparr> else s1)"

definition pop_fl :: "machine \<Rightarrow> circle \<Rightarrow> search \<Rightarrow> search" where
  "pop_fl m next s =
     (let s1 = (if fullyOutside_fl m next then s\<lparr>outsideCount := outsideCount s - 1\<rparr> else s)
      in s1\<lparr>circles := butlast (circles s1)\<rparr>)"

text \<open>
  The angles of the loop \<open>for (ang = 0; ang < TWO_PI; ang += ANGLE_STEP)\<close>: the header alone
  decides them, so they are computed ahead of the loop body: \<open>0\<close>, then one rounded
  addition of \<open>ANGLE_STEP\<close> after the other, as long as the sum is below \<open>TWO_PI\<close>. The list
  is cut off after 99 angles; on a machine that meets \<open>ieee\<close> the loop ends within 66
  (\<open>loop_angles_complete\<close>), so the cut-off is never reached. The number of turns is 64
  in exact arithmetic and depends on the rounding otherwise.
\<close>

definition ANGLE_STEP_fl :: "machine \<Rightarrow> real" where
  "ANGLE_STEP_fl m = round_m m (TWO_PI_fl m / 64)"

definition loop_angles :: "machine \<Rightarrow> real list" where
  "loop_angles m =
     takeWhile (\<lambda>ang. ang < TWO_PI_fl m)
       (map (\<lambda>k. ((\<lambda>ang. round_m m (ang + ANGLE_STEP_fl m)) ^^ k) 0) [0 ..< 99])"

function dfs_fl :: "machine \<Rightarrow> (nat \<Rightarrow> real) \<Rightarrow> search \<Rightarrow> search"
  and fan_fl :: "machine \<Rightarrow> (nat \<Rightarrow> real) \<Rightarrow> circle \<Rightarrow> real list \<Rightarrow> search \<Rightarrow> search" where
  "dfs_fl m rng s =
     (if MAX_TOTAL_TRIES < totalTries (count_try s) then count_try s
      else if MAX_CIRCLES_dfs \<le> length (circles (record_best (count_try s)))
      then record_best (count_try s)
      else fan_fl m rng (last (circles (record_best (count_try s)))) (loop_angles m)
             (record_best (count_try s)))"
| "fan_fl m rng lst [] s = s"
| "fan_fl m rng lst (ang # angs) s =
     (if overlapsAny_dfs_fl m (circles (advance s)) (candidate_fl m lst ang (draw_radius_fl m rng s))
      then fan_fl m rng lst angs (advance s)
      else fan_fl m rng lst angs
             (pop_fl m (candidate_fl m lst ang (draw_radius_fl m rng s))
                (dfs_fl m rng (push_fl m (candidate_fl m lst ang (draw_radius_fl m rng s))
                                 (advance s)))))"
  by pat_completeness auto

lemma circles_fl_simps [simp]:
  "circles (push_fl m next s) = circles s @ [next]"
  "circles (pop_fl m next s) = butlast (circles s)"
  "bestCircles (push_fl m next s) = bestCircles s"
  "bestCircles (pop_fl m next s) = bestCircles s"
  by (simp_all add: push_fl_def pop_fl_def Let_def)

lemma dfs_fl_circles_partial:
  "dfs_fl_fan_fl_dom (Inl (m, rng, s)) \<Longrightarrow> circles (dfs_fl m rng s) = circles s"
  "dfs_fl_fan_fl_dom (Inr (m, rng, lst, angs, s)) \<Longrightarrow> circles (fan_fl m rng lst angs s) = circles s"
proof (induct m rng s and m rng lst angs s rule: dfs_fl_fan_fl.pinduct)
  case (1 m rng s)
  then show ?case by (simp add: dfs_fl.psimps)
next
  case (2 m rng lst s)
  then show ?case by (simp add: fan_fl.psimps)
next
  case (3 m rng lst ang angs s)
  then show ?case by (simp add: fan_fl.psimps)
qed

lemma length_loop_angles: "length (loop_angles m) \<le> 99"
proof -
  have "length (loop_angles m)
          \<le> length (map (\<lambda>k. ((\<lambda>ang. round_m m (ang + ANGLE_STEP_fl m)) ^^ k) 0) [0 ..< 99])"
    unfolding loop_angles_def by (rule length_takeWhile_le)
  then show ?thesis by simp
qed

termination dfs_fl
proof (relation "measures
    [\<lambda>v. case v of Inl (m, rng, s) \<Rightarrow> 301 - length (circles s)
                  | Inr (m, rng, lst, angs, s) \<Rightarrow> 301 - length (circles s),
     \<lambda>v. case v of Inl (m, rng, s) \<Rightarrow> (if MAX_CIRCLES_dfs \<le> length (circles s) then 0 else 101)
                  | Inr (m, rng, lst, angs, s) \<Rightarrow> 1 + length angs]",
       goal_cases)
  case 1
  then show ?case by simp
next
  case (2 m rng s)
  then show ?case using length_loop_angles[of m] by simp
next
  case (3 m rng lst ang angs s)
  then show ?case by simp
next
  case (4 m rng lst ang angs s)
  then show ?case by (auto simp: MAX_CIRCLES_dfs_def)
next
  case (5 m rng lst ang angs s)
  then show ?case by (simp add: dfs_fl_circles_partial)
qed

declare dfs_fl.simps [simp del] fan_fl.simps [simp del]

definition seed_dfs_fl :: "machine \<Rightarrow> (nat \<Rightarrow> real) \<Rightarrow> circle \<times> nat" where
  "seed_dfs_fl m rng =
     (let e = \<lfloor>random1_fl m 4 (rng 0)\<rfloor>;
          r0 = random2_fl m MIN_R MAX_R (rng 1);
          (x0, p) = (if e = 1 then (round_m m (CANVAS_W - round_m m (r0 * (1 / 2))), 2)
                     else if e = 3 then (round_m m (r0 * (1 / 2)), 2)
                     else (random2_fl m (round_m m (r0 * (1 / 2)))
                             (round_m m (CANVAS_W - round_m m (r0 * (1 / 2)))) (rng 2), 3));
          (y0, q) = (if e = 0 then (round_m m (r0 * (1 / 2)), p)
                     else if e = 2 then (round_m m (CANVAS_H - round_m m (r0 * (1 / 2))), p)
                     else (random2_fl m (round_m m (r0 * (1 / 2)))
                             (round_m m (CANVAS_H - round_m m (r0 * (1 / 2)))) (rng p), p + 1))
      in (\<lparr>x = x0, y = y0, radius = r0, edge = Some e\<rparr>, q))"

definition search_start_fl :: "machine \<Rightarrow> (nat \<Rightarrow> real) \<Rightarrow> search" where
  "search_start_fl m rng =
     (let seed = fst (seed_dfs_fl m rng);
          n = (if fullyOutside_fl m seed then 1 else 0)
      in \<lparr>circles = [seed], totalTries = 0, outsideCount = n,
          bestCircles = [seed], bestOutsideCt = n, cursor = snd (seed_dfs_fl m rng)\<rparr>)"

definition generateTouchingCircles_dfs_fl :: "machine \<Rightarrow> (nat \<Rightarrow> real) \<Rightarrow> circle list" where
  "generateTouchingCircles_dfs_fl m rng = bestCircles (dfs_fl m rng (search_start_fl m rng))"


section \<open>Void filler\<close>

text \<open>
  \<open>fillVoids\<close> calls \<open>fullyInsideViewport\<close>, a global name that no file of the repository
  defines. The binding of that name in the page's global scope is the argument \<open>helper\<close>:
  \<open>None\<close> when nothing defines it, as in the repository, where the call throws a
  \<open>ReferenceError\<close>; \<open>Some f\<close> if another script of the page were to define it.
\<close>

datatype js_error = ReferenceError

definition filler :: "(nat \<Rightarrow> real) \<Rightarrow> nat \<Rightarrow> circle" where
  "filler rng pos =
     \<lparr>x = random1 CANVAS_W (rng (pos + 1)), y = random1 CANVAS_H (rng (pos + 2)),
      radius = random2 12 30 (rng pos), edge = None\<rparr>"

fun fillVoids ::
  "(circle \<Rightarrow> bool) option \<Rightarrow> (nat \<Rightarrow> real) \<Rightarrow> nat \<Rightarrow> nat \<Rightarrow> circle list \<Rightarrow> js_error + circle list" where
  "fillVoids helper rng 0 pos cs = Inr cs"
| "fillVoids helper rng (Suc attempts) pos cs =
     (let c = filler rng pos
      in if overlapsAny_dfs cs c then fillVoids helper rng attempts (pos + 3) cs
         else case helper of
                None \<Rightarrow> Inl ReferenceError
              | Some fullyInsideViewport \<Rightarrow>
                  if \<not> fullyInsideViewport c then fillVoids helper rng attempts (pos + 3) cs
                  else fillVoids helper rng attempts (pos + 3) (cs @ [c]))"

section \<open>Setup of the perspective sketch\<close>

text \<open>\<open>setup\<close>: generate, fit, fill, extract the arcs. An exception in \<open>fillVoids\<close> ends
  \<open>setup\<close> before \<open>buildArcList\<close> runs.\<close>

definition setup_persp ::
  "(circle \<Rightarrow> bool) option \<Rightarrow> (nat \<Rightarrow> real) \<Rightarrow> js_error + (circle list \<times> arc list)" where
  "setup_persp helper rng =
     (let s = dfs rng (search_start rng);
          fitted = fitRibbonToViewport (bestCircles s)
      in case fillVoids helper rng 2000 (cursor s) fitted of
           Inl e \<Rightarrow> Inl e
         | Inr cs \<Rightarrow> Inr (cs, buildArcList cs))"

section \<open>Predicates of the properties\<close>

text \<open>
  \<open>tangent_chain eps cs\<close>: every circle but the first touches its predecessor (the distance
  of the centres is the sum of the radii, within \<open>eps\<close>), and two circles whose indices
  differ by more than one are at least the sum of their radii minus \<open>eps\<close> apart.
  \<open>counted s\<close>: the counter \<open>outsideCount\<close> is the number of fully-outside circles of the
  chain. \<open>qualifies cs\<close>: the chain meets the target of the search. \<open>descending s\<close>
  describes the states of the first descent of the search, which takes the angle \<open>0\<close> at
  every depth: all circles lie on the seed's horizontal line and the tail reaches furthest
  right.
\<close>

definition counted :: "search \<Rightarrow> bool" where
  "counted s = (outsideCount s = int (length (filter fullyOutside (circles s))))"

definition centre_dist :: "circle \<Rightarrow> circle \<Rightarrow> real" where
  "centre_dist c d = dist_p5 (x c) (y c) (x d) (y d)"

definition tangent_chain :: "real \<Rightarrow> circle list \<Rightarrow> bool" where
  "tangent_chain eps cs =
     ((\<forall>i \<in> {1 ..< length cs}.
         \<bar>centre_dist (cs ! i) (cs ! (i - 1)) - (radius (cs ! i) + radius (cs ! (i - 1)))\<bar> \<le> eps)
      \<and> (\<forall>i \<in> {0 ..< length cs}. \<forall>j \<in> {0 ..< i - 1}.
         radius (cs ! i) + radius (cs ! j) - eps \<le> centre_dist (cs ! i) (cs ! j)))"

text \<open>\<open>touching eps cs\<close> is the first half of \<open>tangent_chain\<close> alone. \<open>placed eps cs\<close>: a
  tangent chain whose radii and coordinates stay in the range the generators produce, the
  invariant of both generators on the machine.\<close>

definition touching :: "real \<Rightarrow> circle list \<Rightarrow> bool" where
  "touching eps cs =
     (\<forall>i \<in> {1 ..< length cs}.
         \<bar>centre_dist (cs ! i) (cs ! (i - 1)) - (radius (cs ! i) + radius (cs ! (i - 1)))\<bar> \<le> eps)"

definition placed :: "real \<Rightarrow> circle list \<Rightarrow> bool" where
  "placed eps cs =
     (tangent_chain eps cs \<and> touching (1 / 100000000) cs
      \<and> (\<forall>c \<in> set cs. 49 \<le> radius c \<and> radius c \<le> 201
            \<and> \<bar>x c\<bar> \<le> 1100 + 403 * real (length cs)
            \<and> \<bar>y c\<bar> \<le> 1100 + 403 * real (length cs)))"

definition sound_chain :: "real \<Rightarrow> circle list \<Rightarrow> bool" where
  "sound_chain eps cs = (tangent_chain eps cs \<and> (\<forall>c \<in> set cs. 0 \<le> radius c))"






section \<open>Concrete inputs\<close>

definition rng_zero :: "nat \<Rightarrow> real" where "rng_zero n = 0"

definition three_chain :: "circle list" where
  "three_chain = [\<lparr>x = 540, y = 25, radius = 50, edge = Some 0\<rparr>,
                  \<lparr>x = 640, y = 25, radius = 50, edge = None\<rparr>,
                  \<lparr>x = 740, y = 25, radius = 50, edge = None\<rparr>]"

definition one_arc :: "arc list" where
  "one_arc = [\<lparr>cx = 540, cy = 25, r = 50, a1 = Some 0, a2 = 0, cw = True\<rparr>]"



text \<open>A rounding that errs by the whole relative error on every operation, and two circles
  whose bounding box is wider than the viewport.\<close>

definition worst :: "real \<Rightarrow> real" where
  "worst v = v - v / 2 ^ 53"

definition wide_pair :: "circle list" where
  "wide_pair = [\<lparr>x = 0, y = 0, radius = 50, edge = Some 0\<rparr>,
                \<lparr>x = 1358, y = 0, radius = 50, edge = None\<rparr>]"

text \<open>The machine that rounds with \<open>worst\<close> and computes the library functions exactly,
  and the machine that does not round at all.\<close>

definition worst_machine :: machine where
  "worst_machine = \<lparr>round_m = worst, cos_m = cos, sin_m = sin,
                     hypot_m = (\<lambda>u v. sqrt (u\<^sup>2 + v\<^sup>2))\<rparr>"

definition exact_machine :: machine where
  "exact_machine = \<lparr>round_m = (\<lambda>v. v), cos_m = cos, sin_m = sin,
                     hypot_m = (\<lambda>u v. sqrt (u\<^sup>2 + v\<^sup>2))\<rparr>"


section \<open>Properties\<close>

subsection \<open>Pulse schedule\<close>

lemma js_rem_nonneg: "0 \<le> a \<Longrightarrow> 0 < b \<Longrightarrow> js_rem a b = a mod b"
  by (cases "a = 0") (simp_all add: js_rem_def)

lemma leader_eq: "leader frameCount = int (frameCount mod LAYERS)"
proof -
  have "\<lfloor>real frameCount / TICK\<rfloor> = int frameCount"
    by (simp add: TICK_def)
  then show ?thesis
    by (simp add: leader_def js_rem_nonneg LAYERS_def zmod_int)
qed

lemma leader_range: "0 \<le> leader frameCount \<and> leader frameCount < int LAYERS"
  by (simp add: leader_eq LAYERS_def)

lemma pulses_eq: "pulses frameCount = leader frameCount div GAP + 1"
  by (simp add: pulses_def floor_divide_of_int_eq)

text \<open>The test of \<open>draw\<close> on a layer, in the words of the schedule.\<close>

lemma turquoise_unlocked_multiple:
  "(turquoise frameCount layer \<longleftrightarrow>
      (\<exists>k::nat. leader frameCount - int layer = int k * GAP \<and> int k < pulses frameCount))
   \<and> leader frameCount = int (frameCount mod LAYERS)
   \<and> pulses frameCount = leader frameCount div GAP + 1"
proof -
  let ?d = "leader frameCount - int layer"
  have lead: "0 \<le> leader frameCount" using leader_range by simp
  show ?thesis
  proof (cases "0 \<le> ?d")
    case False
    then show ?thesis
      by (auto simp: turquoise_def Let_def GAP_def leader_eq pulses_eq)
  next
    case True
    then have rem: "js_rem ?d GAP = ?d mod GAP"
      by (simp add: js_rem_nonneg GAP_def)
    have quot: "?d mod GAP = 0 \<Longrightarrow>
        (real_of_int ?d / real_of_int GAP < real_of_int (pulses frameCount))
          = (?d div GAP < leader frameCount div GAP + 1)"
    proof -
      assume m: "?d mod GAP = 0"
      then have "GAP dvd ?d" by (simp add: dvd_eq_mod_eq_0)
      then have "real_of_int ?d / real_of_int GAP = real_of_int (?d div GAP)"
        by (simp add: real_of_int_div)
      then show ?thesis
        unfolding pulses_eq by (metis of_int_less_iff)
    qed
    have "turquoise frameCount layer
            \<longleftrightarrow> (?d mod GAP = 0 \<and> ?d div GAP < leader frameCount div GAP + 1)"
      using True rem quot by (auto simp: turquoise_def Let_def)
    also have "\<dots> \<longleftrightarrow> (\<exists>k::nat. ?d = int k * GAP \<and> int k < leader frameCount div GAP + 1)"
    proof
      assume h: "?d mod GAP = 0 \<and> ?d div GAP < leader frameCount div GAP + 1"
      then have "GAP dvd ?d" by (simp add: dvd_eq_mod_eq_0)
      then have e: "?d = (?d div GAP) * GAP" by simp
      have "0 \<le> ?d div GAP" using True by (simp add: GAP_def pos_imp_zdiv_nonneg_iff)
      then obtain k :: nat where k: "?d div GAP = int k"
        using nonneg_int_cases by blast
      with h e show "\<exists>k::nat. ?d = int k * GAP \<and> int k < leader frameCount div GAP + 1"
        by metis
    next
      assume "\<exists>k::nat. ?d = int k * GAP \<and> int k < leader frameCount div GAP + 1"
      then obtain k :: nat where k: "?d = int k * GAP" "int k < leader frameCount div GAP + 1"
        by blast
      then show "?d mod GAP = 0 \<and> ?d div GAP < leader frameCount div GAP + 1"
        by (simp add: GAP_def)
    qed
    finally show ?thesis by (simp add: leader_eq pulses_eq)
  qed
qed

lemma turquoise_unlocked:
  "turquoise frameCount layer \<longleftrightarrow>
      (\<exists>k::nat. leader frameCount - int layer = int k * GAP \<and> int k < pulses frameCount)"
  using turquoise_unlocked_multiple[of frameCount layer] by simp

text \<open>The strokes of one frame of the perspective sketch: per layer and arc segment one
  black body stroke and one outline stroke, whose colour is the turquoise test's.\<close>

lemma draw_persp_members:
  "d \<in> set (draw_persp arcs frameCount) \<longleftrightarrow>
     (\<exists>layer < LAYERS. \<exists>seg \<in> set arcs.
        d = \<lparr>layer_of = layer, shift = (width / 2, height / 2), zoom = DEPTH_SCALE ^ layer,
             stroke = Black, strokeWeight = BLACK_W_persp / DEPTH_SCALE ^ layer,
             shape = drawArcSegment_persp seg\<rparr>
      \<or> d = \<lparr>layer_of = layer, shift = (width / 2, height / 2), zoom = DEPTH_SCALE ^ layer,
             stroke = (if turquoise frameCount layer then Turquoise
                       else White (lerp 255 0 (real layer / (real LAYERS - 1)) - 25)),
             strokeWeight = WHITE_W_persp / DEPTH_SCALE ^ layer,
             shape = drawArcSegment_persp seg\<rparr>)"
  by (auto simp: draw_persp_def Let_def)

lemma draw_persp_highlight:
  "(\<forall>d \<in> set (draw_persp arcs frameCount). stroke d \<noteq> Black \<longrightarrow>
       (stroke d = Turquoise \<longleftrightarrow> turquoise frameCount (layer_of d)))
   \<and> (\<forall>layer < LAYERS. \<forall>seg \<in> set arcs. \<exists>d. d \<in> set (draw_persp arcs frameCount)
         \<and> layer_of d = layer \<and> shape d = drawArcSegment_persp seg \<and> stroke d \<noteq> Black)"
proof (intro conjI ballI allI impI)
  fix d assume "d \<in> set (draw_persp arcs frameCount)" "stroke d \<noteq> Black"
  then show "stroke d = Turquoise \<longleftrightarrow> turquoise frameCount (layer_of d)"
    unfolding draw_persp_members by (auto split: if_splits)
next
  fix layer seg assume l: "layer < LAYERS" and s: "seg \<in> set arcs"
  let ?d = "\<lparr>layer_of = layer, shift = (width / 2, height / 2), zoom = DEPTH_SCALE ^ layer,
             stroke = (if turquoise frameCount layer then Turquoise
                       else White (lerp 255 0 (real layer / (real LAYERS - 1)) - 25)),
             strokeWeight = WHITE_W_persp / DEPTH_SCALE ^ layer,
             shape = drawArcSegment_persp seg\<rparr>"
  have "?d \<in> set (draw_persp arcs frameCount)"
    unfolding draw_persp_members using l s by blast
  moreover have "layer_of ?d = layer" "shape ?d = drawArcSegment_persp seg" "stroke ?d \<noteq> Black"
    by simp_all
  ultimately show "\<exists>d. d \<in> set (draw_persp arcs frameCount)
         \<and> layer_of d = layer \<and> shape d = drawArcSegment_persp seg \<and> stroke d \<noteq> Black"
    by blast
qed

text \<open>
  C8. In a frame of the perspective sketch every layer \<open>L < LAYERS\<close> gets, for each arc
  segment, an outline stroke (the stroke that is not the black body), and an outline stroke
  of layer \<open>L\<close> is turquoise exactly when \<open>leader - L\<close> is a non-negative multiple \<open>k * GAP\<close>
  of the gap with \<open>k\<close> below the number of pulses unlocked so far, where
  \<open>leader = floor(frameCount / TICK) mod LAYERS\<close> and the number of pulses is
  \<open>floor(leader / GAP) + 1\<close>.
\<close>

theorem draw_persp_turquoise_iff_unlocked_multiple:
  "(\<forall>d \<in> set (draw_persp arcs frameCount). stroke d \<noteq> Black \<longrightarrow>
       (stroke d = Turquoise \<longleftrightarrow>
          (\<exists>k::nat. leader frameCount - int (layer_of d) = int k * GAP \<and> int k < pulses frameCount)))
   \<and> (\<forall>layer < LAYERS. \<forall>seg \<in> set arcs. \<exists>d. d \<in> set (draw_persp arcs frameCount)
         \<and> layer_of d = layer \<and> shape d = drawArcSegment_persp seg \<and> stroke d \<noteq> Black)
   \<and> leader frameCount = int (frameCount mod LAYERS)
   \<and> pulses frameCount = leader frameCount div GAP + 1"
  using draw_persp_highlight[of arcs frameCount]
  by (simp add: turquoise_unlocked leader_eq pulses_eq)

theorem draw_persp_turquoise_iff_unlocked_multiple_witness:
  "(\<exists>d. d \<in> set (draw_persp one_arc 12) \<and> layer_of d = 6 \<and> stroke d = Turquoise)
   \<and> (\<exists>d. d \<in> set (draw_persp one_arc 12) \<and> layer_of d = 5
          \<and> stroke d \<noteq> Black \<and> stroke d \<noteq> Turquoise)
   \<and> (\<exists>d. d \<in> set (draw_persp one_arc 12) \<and> layer_of d = 18
          \<and> stroke d \<noteq> Black \<and> stroke d \<noteq> Turquoise)
   \<and> leader 12 = 12 \<and> pulses 12 = 3"
proof -
  note t = draw_persp_turquoise_iff_unlocked_multiple[of one_arc 12]
  have lead: "leader 12 = 12" and pul: "pulses 12 = 3"
    using t by (simp_all add: LAYERS_def GAP_def)
  obtain seg where seg: "seg \<in> set one_arc" by (auto simp: one_arc_def)
  have pick: "\<exists>d. d \<in> set (draw_persp one_arc 12) \<and> layer_of d = layer \<and> stroke d \<noteq> Black"
    if "layer < LAYERS" for layer
    using t that seg by blast
  have iff: "stroke d = Turquoise \<longleftrightarrow> (\<exists>k::nat. 12 - int (layer_of d) = int k * 6 \<and> int k < 3)"
    if "d \<in> set (draw_persp one_arc 12)" "stroke d \<noteq> Black" for d
    using t that lead pul by (simp add: GAP_def)
  from pick[of 6] obtain d6 where
    d6: "d6 \<in> set (draw_persp one_arc 12)" "layer_of d6 = 6" "stroke d6 \<noteq> Black"
    by (auto simp: LAYERS_def)
  have "\<exists>k::nat. 12 - int (layer_of d6) = int k * 6 \<and> int k < 3"
    using d6(2) by (intro exI[of _ 1]) simp
  with iff[OF d6(1,3)] have t6: "stroke d6 = Turquoise" by simp
  from pick[of 5] obtain d5 where
    d5: "d5 \<in> set (draw_persp one_arc 12)" "layer_of d5 = 5" "stroke d5 \<noteq> Black"
    by (auto simp: LAYERS_def)
  have "\<not> (\<exists>k::nat. 12 - int (layer_of d5) = int k * 6 \<and> int k < 3)"
    using d5(2) by presburger
  with iff[OF d5(1,3)] have t5: "stroke d5 \<noteq> Turquoise" by simp
  from pick[of 18] obtain d18 where
    d18: "d18 \<in> set (draw_persp one_arc 12)" "layer_of d18 = 18" "stroke d18 \<noteq> Black"
    by (auto simp: LAYERS_def)
  have "\<not> (\<exists>k::nat. 12 - int (layer_of d18) = int k * 6 \<and> int k < 3)"
    using d18(2) by presburger
  with iff[OF d18(1,3)] have t18: "stroke d18 \<noteq> Turquoise" by simp
  show ?thesis using d6 t6 d5 t5 d18 t18 lead pul by blast
qed

subsection \<open>Frame capture\<close>

lemma keyPressed_R_loaded:
  "keyPressed_R capture_loaded =
     \<lparr>window_recPending = False, recPending = True, grabCount = 0, folder = [], downloads = 0\<rparr>"
  by (simp add: keyPressed_R_def startCapture_def capture_loaded_def)

lemma draw_capture_hook_idle: "\<not> window_recPending s \<Longrightarrow> (draw_capture_hook ^^ n) s = s"
  by (induction n) (simp_all add: draw_capture_hook_def)

text \<open>
  What \<open>capture.js\<close> does when \<open>saveGifFrame\<close> is called on every frame, as its header asks:
  the frames \<open>0 .. REC_FRAMES - 1\<close> are stored, then one archive is produced and recording
  stops.
\<close>

lemma saveGifFrame_steps:
  "recPending s \<Longrightarrow> grabCount s + n < REC_FRAMES \<Longrightarrow>
   (saveGifFrame ^^ n) s
     = s\<lparr>folder := folder s @ [grabCount s ..< grabCount s + n], grabCount := grabCount s + n\<rparr>"
proof (induction n)
  case 0
  then show ?case by simp
next
  case (Suc n)
  let ?t = "s\<lparr>folder := folder s @ [grabCount s ..< grabCount s + n], grabCount := grabCount s + n\<rparr>"
  from Suc have "(saveGifFrame ^^ n) s = ?t"
    by simp
  then have "(saveGifFrame ^^ Suc n) s = saveGifFrame ?t"
    by simp
  also have "\<dots> = s\<lparr>folder := folder s @ [grabCount s ..< grabCount s + Suc n],
                      grabCount := grabCount s + Suc n\<rparr>"
    using Suc.prems by (simp add: saveGifFrame_def Let_def)
  finally show ?case .
qed

lemma saveGifFrame_budget:
  "(saveGifFrame ^^ REC_FRAMES) (startCapture capture_loaded)
     = \<lparr>window_recPending = False, recPending = False, grabCount = REC_FRAMES,
        folder = [0 ..< REC_FRAMES], downloads = 1\<rparr>"
proof -
  let ?s = "startCapture capture_loaded"
  have s: "?s = \<lparr>window_recPending = False, recPending = True, grabCount = 0,
                 folder = [], downloads = 0\<rparr>"
    by (simp add: startCapture_def capture_loaded_def)
  have n: "REC_FRAMES = Suc 599"
    by (simp add: REC_FRAMES_def REC_SECONDS_def REC_FPS_def)
  have "(saveGifFrame ^^ 599) ?s = ?s\<lparr>folder := folder ?s @ [grabCount ?s ..< grabCount ?s + 599],
                                        grabCount := grabCount ?s + 599\<rparr>"
    by (rule saveGifFrame_steps) (simp_all add: s n)
  then have before: "(saveGifFrame ^^ 599) ?s
      = \<lparr>window_recPending = False, recPending = True, grabCount = 599,
         folder = [0 ..< 599], downloads = 0\<rparr>"
    by (simp add: s)
  have "(saveGifFrame ^^ REC_FRAMES) ?s = saveGifFrame ((saveGifFrame ^^ 599) ?s)"
    unfolding n by (simp only: funpow.simps o_apply)
  also have "\<dots> = \<lparr>window_recPending = False, recPending = False, grabCount = 600,
                   folder = [0 ..< 599] @ [599], downloads = 1\<rparr>"
    unfolding before by (simp add: saveGifFrame_def finishCapture_def Let_def n)
  also have "[0 ..< 599] @ [599] = [0 ..< Suc 599]"
    by (metis upt_Suc_append zero_le)
  finally show ?thesis by (simp add: n)
qed

text \<open>
  C9. The claim: once \<open>startCapture\<close> has been triggered, every following \<open>draw\<close> hands its
  frame to \<open>saveGifFrame\<close> until \<open>REC_FRAMES = 600\<close> frames are captured, and one archive is
  produced. The sketches gate the hand-off on \<open>window.recPending\<close>, which nothing ever sets
  to true: after the key press, however many frames are drawn, no frame has been stored,
  no archive has been produced and the recorder is still waiting.
\<close>

theorem capture_gate_never_opens:
  "(draw_capture_hook ^^ n) (keyPressed_R capture_loaded)
     = \<lparr>window_recPending = False, recPending = True, grabCount = 0, folder = [], downloads = 0\<rparr>"
  by (simp add: keyPressed_R_loaded draw_capture_hook_idle)

subsection \<open>Arc extraction and rendering\<close>

lemma length_buildArcList: "length (buildArcList cs) = length cs - 1"
  by (auto simp: buildArcList_def)

lemma centres_buildArcList:
  "map (\<lambda>a. (cx a, cy a, r a)) (buildArcList cs) = map (\<lambda>c. (x c, y c, radius c)) (butlast cs)"
proof (cases "length cs < 2")
  case True
  then have "butlast cs = []"
    by (cases cs) (auto simp: butlast_conv_take)
  with True show ?thesis by (simp add: buildArcList_def)
next
  case False
  show ?thesis
  proof (rule nth_equalityI)
    show "length (map (\<lambda>a. (cx a, cy a, r a)) (buildArcList cs))
            = length (map (\<lambda>c. (x c, y c, radius c)) (butlast cs))"
      by (simp add: length_buildArcList)
  next
    fix i
    assume "i < length (map (\<lambda>a. (cx a, cy a, r a)) (buildArcList cs))"
    then have i: "i < length cs - 1" by (simp add: length_buildArcList)
    show "map (\<lambda>a. (cx a, cy a, r a)) (buildArcList cs) ! i
            = map (\<lambda>c. (x c, y c, radius c)) (butlast cs) ! i"
    proof (cases i)
      case 0
      with False i show ?thesis
        by (simp add: buildArcList_def first_arc_def Let_def nth_butlast)
    next
      case (Suc j)
      with False i show ?thesis
        by (simp add: buildArcList_def chain_arc_def Let_def nth_butlast)
    qed
  qed
qed

lemma draw_nothing: "draw_plain [] = []" "draw_pulse [] fc = []" "draw_persp [] fc = []"
  by (simp_all add: draw_plain_def draw_pulse_def draw_persp_def)

text \<open>
  C6. A circle list of length \<open>N \<ge> 2\<close> gives exactly \<open>N - 1\<close> arc segments, centred at the
  circles \<open>0 .. N - 2\<close> in order (the last circle has none); a shorter list gives none; and
  on an empty arc list every \<open>draw\<close> strokes no arc.
\<close>

theorem buildArcList_count:
  "(2 \<le> length cs \<longrightarrow>
      length (buildArcList cs) = length cs - 1
      \<and> map (\<lambda>a. (cx a, cy a, r a)) (buildArcList cs)
          = map (\<lambda>c. (x c, y c, radius c)) (butlast cs))
   \<and> (length cs < 2 \<longrightarrow> buildArcList cs = [])
   \<and> draw_plain [] = [] \<and> draw_pulse [] frameCount = [] \<and> draw_persp [] frameCount = []"
  using length_buildArcList[of cs] centres_buildArcList[of cs]
  by (simp add: draw_nothing) (simp add: buildArcList_def)

theorem buildArcList_count_witness:
  "2 \<le> length three_chain \<and> length (buildArcList three_chain) = 2
   \<and> map (\<lambda>a. (cx a, cy a, r a)) (buildArcList three_chain) = [(540, 25, 50), (640, 25, 50)]"
  using buildArcList_count[of three_chain] by (simp add: three_chain_def)

lemma chain_arc_append:
  "i + 1 < length cs \<Longrightarrow> chain_arc (cs @ fs) i = chain_arc cs i"
  by (simp add: chain_arc_def nth_append)

lemma first_arc_append:
  "2 \<le> length cs \<Longrightarrow> first_arc (cs @ fs) = first_arc cs"
  by (cases cs) (auto simp: first_arc_def nth_append)

lemma buildArcList_consumes_fillers:
  assumes "2 \<le> length chain"
  shows "buildArcList (chain @ fillers)
           = buildArcList chain
             @ map (chain_arc (chain @ fillers)) [length chain - 1 ..< length chain + length fillers - 1]"
proof -
  have split: "[1 ..< length chain + length fillers - 1]
      = [1 ..< length chain - 1] @ [length chain - 1 ..< length chain + length fillers - 1]"
  proof -
    have "[1 ..< (length chain - 1) + length fillers]
        = [1 ..< length chain - 1] @ [length chain - 1 ..< (length chain - 1) + length fillers]"
      using assms by (intro upt_add_eq_append) simp
    moreover have "(length chain - 1) + length fillers = length chain + length fillers - 1"
      using assms by simp
    ultimately show ?thesis by simp
  qed
  have same: "map (chain_arc (chain @ fillers)) [1 ..< length chain - 1]
      = map (chain_arc chain) [1 ..< length chain - 1]"
    by (rule map_cong) (auto simp: chain_arc_append)
  have "map (chain_arc (chain @ fillers)) [1 ..< length chain + length fillers - 1]
      = map (chain_arc chain) [1 ..< length chain - 1]
        @ map (chain_arc (chain @ fillers)) [length chain - 1 ..< length chain + length fillers - 1]"
    unfolding split map_append same ..
  then show ?thesis
    using assms by (simp add: buildArcList_def first_arc_append)
qed

subsection \<open>Void filler\<close>

lemma far_apart_x:
  "radius c + radius nc - 1 / 10 \<le> \<bar>x nc - x c\<bar> \<Longrightarrow>
   \<not> dist_p5 (x c) (y c) (x nc) (y nc) < radius c + radius nc - 1 / 10"
  using real_sqrt_ge_abs1[of "x nc - x c" "y nc - y c"] unfolding dist_p5_def by linarith

lemma fillVoids_prefix:
  "fillVoids helper rng n pos cs = Inr cs' \<Longrightarrow> \<exists>fs. cs' = cs @ fs"
proof (induction n arbitrary: pos cs)
  case 0
  then show ?case by simp
next
  case (Suc n)
  let ?c = "filler rng pos"
  from Suc.prems consider
      (skip) "fillVoids helper rng n (pos + 3) cs = Inr cs'"
    | (keep) "fillVoids helper rng n (pos + 3) (cs @ [?c]) = Inr cs'"
    by (simp only: fillVoids.simps Let_def split: if_splits option.splits) auto
  then show ?case
  proof cases
    case skip
    then show ?thesis by (rule Suc.IH)
  next
    case keep
    then obtain fs where "cs' = (cs @ [?c]) @ fs"
      using Suc.IH by blast
    then have "cs' = cs @ (?c # fs)" by simp
    then show ?thesis ..
  qed
qed


lemma fillVoids_undefined_helper:
  "0 < n \<Longrightarrow> \<not> overlapsAny_dfs cs (filler rng pos) \<Longrightarrow> fillVoids None rng n pos cs = Inl ReferenceError"
  by (cases n) (simp_all add: Let_def)

subsection \<open>Viewport fit\<close>

lemma fold_grow_box_Some:
  "fold grow_box cs (Some (a, b, c, d))
     = Some (fold (\<lambda>k m. min m (x k - radius k)) cs a, fold (\<lambda>k m. max m (x k + radius k)) cs b,
             fold (\<lambda>k m. min m (y k - radius k)) cs c, fold (\<lambda>k m. max m (y k + radius k)) cs d)"
  by (induction cs arbitrary: a b c d) (simp_all add: grow_box_def)

lemma fold_min_eq: "fold (\<lambda>k m. min m (f k)) cs (a::real) = Min (insert a (f ` set cs))"
proof (induction cs arbitrary: a)
  case Nil
  then show ?case by simp
next
  case (Cons k cs)
  have "Min (insert (min a (f k)) (f ` set cs)) = Min (insert a (insert (f k) (f ` set cs)))"
    by (cases "set cs = {}") (simp_all add: min.assoc)
  with Cons show ?case by simp
qed

lemma fold_max_eq: "fold (\<lambda>k m. max m (f k)) cs (a::real) = Max (insert a (f ` set cs))"
proof (induction cs arbitrary: a)
  case Nil
  then show ?case by simp
next
  case (Cons k cs)
  have "Max (insert (max a (f k)) (f ` set cs)) = Max (insert a (insert (f k) (f ` set cs)))"
    by (cases "set cs = {}") (simp_all add: max.assoc)
  with Cons show ?case by simp
qed

lemma bounding_box_Cons:
  "bounding_box (k # cs)
     = Some (Min ((\<lambda>c. x c - radius c) ` set (k # cs)), Max ((\<lambda>c. x c + radius c) ` set (k # cs)),
             Min ((\<lambda>c. y c - radius c) ` set (k # cs)), Max ((\<lambda>c. y c + radius c) ` set (k # cs)))"
  by (simp add: bounding_box_def grow_box_def fold_grow_box_Some fold_min_eq fold_max_eq)

lemma bounding_box_nonempty:
  "cs \<noteq> [] \<Longrightarrow> bounding_box cs
     = Some (Min ((\<lambda>c. x c - radius c) ` set cs), Max ((\<lambda>c. x c + radius c) ` set cs),
             Min ((\<lambda>c. y c - radius c) ` set cs), Max ((\<lambda>c. y c + radius c) ` set cs))"
  by (cases cs) (simp, simp only: bounding_box_Cons)

lemma Min_affine:
  fixes s t :: real
  assumes "finite A" "A \<noteq> {}" "0 \<le> s"
  shows "Min ((\<lambda>v. (v - m) * s + t) ` A) = (Min A - m) * s + t"
proof -
  have "mono (\<lambda>v. (v - m) * s + t)"
    using assms(3) by (auto intro!: monoI mult_right_mono)
  then show ?thesis
    using assms(1,2) mono_Min_commute[of "\<lambda>v. (v - m) * s + t" A] by simp
qed

lemma Max_affine:
  fixes s t :: real
  assumes "finite A" "A \<noteq> {}" "0 \<le> s"
  shows "Max ((\<lambda>v. (v - m) * s + t) ` A) = (Max A - m) * s + t"
proof -
  have "mono (\<lambda>v. (v - m) * s + t)"
    using assms(3) by (auto intro!: monoI mult_right_mono)
  then show ?thesis
    using assms(1,2) mono_Max_commute[of "\<lambda>v. (v - m) * s + t" A] by simp
qed

lemma fit_box:
  assumes ne: "cs \<noteq> []" and pos: "\<forall>c \<in> set cs. 0 < radius c"
  shows "\<exists>minX maxX minY maxY minX' maxX' minY' maxY' scale.
       bounding_box cs = Some (minX, maxX, minY, maxY)
     \<and> scale = fit_scale (maxX - minX) (maxY - minY)
     \<and> scale = min 1 (min ((VIEWPORT - 2 * VIEW_PAD) / (maxX - minX))
                           ((VIEWPORT - 2 * VIEW_PAD) / (maxY - minY)))
     \<and> 0 < scale \<and> scale \<le> 1
     \<and> fitRibbonToViewport cs
          = map (\<lambda>c. c\<lparr>x := (x c - (minX + maxX) / 2) * scale + CANVAS_W / 2,
                         y := (y c - (minY + maxY) / 2) * scale + CANVAS_H / 2,
                         radius := radius c * scale\<rparr>) cs
     \<and> bounding_box (fitRibbonToViewport cs) = Some (minX', maxX', minY', maxY')
     \<and> maxX' - minX' \<le> VIEWPORT - 2 * VIEW_PAD
     \<and> maxY' - minY' \<le> VIEWPORT - 2 * VIEW_PAD
     \<and> VIEWPORT - 2 * VIEW_PAD = 1040
     \<and> (minX' + maxX') / 2 = CANVAS_W / 2
     \<and> (minY' + maxY') / 2 = CANVAS_H / 2"
proof -
  define xl :: "circle \<Rightarrow> real" where "xl = (\<lambda>c. x c - radius c)"
  define xh :: "circle \<Rightarrow> real" where "xh = (\<lambda>c. x c + radius c)"
  define yl :: "circle \<Rightarrow> real" where "yl = (\<lambda>c. y c - radius c)"
  define yh :: "circle \<Rightarrow> real" where "yh = (\<lambda>c. y c + radius c)"
  define minX where "minX = Min (xl ` set cs)"
  define maxX where "maxX = Max (xh ` set cs)"
  define minY where "minY = Min (yl ` set cs)"
  define maxY where "maxY = Max (yh ` set cs)"
  define limit where "limit = VIEWPORT - 2 * VIEW_PAD"
  define scale where "scale = fit_scale (maxX - minX) (maxY - minY)"
  define mx where "mx = (minX + maxX) / 2"
  define my where "my = (minY + maxY) / 2"
  define g :: "circle \<Rightarrow> circle" where "g = (\<lambda>c. c\<lparr>x := (x c - mx) * scale + CANVAS_W / 2,
                              y := (y c - my) * scale + CANVAS_H / 2,
                              radius := radius c * scale\<rparr>)"
  have box: "bounding_box cs = Some (minX, maxX, minY, maxY)"
    using ne by (simp add: bounding_box_nonempty minX_def maxX_def minY_def maxY_def
                    xl_def xh_def yl_def yh_def)
  have lim: "limit = 1040"
    by (simp add: limit_def VIEWPORT_def VIEW_PAD_def)
  obtain k where k: "k \<in> set cs"
    using ne by (cases cs) auto
  have fin: "finite (xl ` set cs)" "finite (xh ` set cs)" "finite (yl ` set cs)" "finite (yh ` set cs)"
    by simp_all
  have nonempty: "xl ` set cs \<noteq> {}" "xh ` set cs \<noteq> {}" "yl ` set cs \<noteq> {}" "yh ` set cs \<noteq> {}"
    using ne by simp_all
  have "minX \<le> xl k" "xh k \<le> maxX" "minY \<le> yl k" "yh k \<le> maxY"
    using k by (simp_all add: minX_def maxX_def minY_def maxY_def)
  moreover have "xl k < xh k" "yl k < yh k"
    using pos k by (simp_all add: xl_def xh_def yl_def yh_def)
  ultimately have bw: "0 < maxX - minX" and bh: "0 < maxY - minY"
    by linarith+
  have scale_eq: "scale = min 1 (min (limit / (maxX - minX)) (limit / (maxY - minY)))"
    using bw bh by (simp add: scale_def fit_scale_def limit_def Let_def mult.commute)
  have scale_pos: "0 < scale"
    using bw bh by (simp add: scale_eq lim)
  have scale_le: "scale \<le> 1"
    by (simp add: scale_eq)
  have sw: "(maxX - minX) * scale \<le> limit"
  proof -
    have "scale \<le> limit / (maxX - minX)" by (simp add: scale_eq)
    then show ?thesis using bw by (simp add: pos_le_divide_eq mult.commute)
  qed
  have sh: "(maxY - minY) * scale \<le> limit"
  proof -
    have "scale \<le> limit / (maxY - minY)" by (simp add: scale_eq)
    then show ?thesis using bh by (simp add: pos_le_divide_eq mult.commute)
  qed
  have fit: "fitRibbonToViewport cs = map g cs"
    by (simp add: fitRibbonToViewport_def box Let_def g_def scale_def mx_def my_def)
  have img:
    "xl ` set (map g cs) = (\<lambda>v. (v - mx) * scale + CANVAS_W / 2) ` (xl ` set cs)"
    "xh ` set (map g cs) = (\<lambda>v. (v - mx) * scale + CANVAS_W / 2) ` (xh ` set cs)"
    "yl ` set (map g cs) = (\<lambda>v. (v - my) * scale + CANVAS_H / 2) ` (yl ` set cs)"
    "yh ` set (map g cs) = (\<lambda>v. (v - my) * scale + CANVAS_H / 2) ` (yh ` set cs)"
    by (simp_all add: image_image g_def xl_def xh_def yl_def yh_def algebra_simps)
  have s0: "0 \<le> scale" using scale_pos by simp
  have box': "bounding_box (fitRibbonToViewport cs)
      = Some ((minX - mx) * scale + CANVAS_W / 2, (maxX - mx) * scale + CANVAS_W / 2,
              (minY - my) * scale + CANVAS_H / 2, (maxY - my) * scale + CANVAS_H / 2)"
  proof -
    have "map g cs \<noteq> []" using ne by simp
    then have "bounding_box (map g cs)
      = Some (Min (xl ` set (map g cs)), Max (xh ` set (map g cs)),
              Min (yl ` set (map g cs)), Max (yh ` set (map g cs)))"
      unfolding xl_def xh_def yl_def yh_def by (rule bounding_box_nonempty)
    then show ?thesis
      unfolding fit img
      by (simp only: Min_affine[OF fin(1) nonempty(1) s0] Max_affine[OF fin(2) nonempty(2) s0]
            Min_affine[OF fin(3) nonempty(3) s0] Max_affine[OF fin(4) nonempty(4) s0]
            minX_def maxX_def minY_def maxY_def)
  qed
  have w': "((maxX - mx) * scale + CANVAS_W / 2) - ((minX - mx) * scale + CANVAS_W / 2)
              = (maxX - minX) * scale"
    by (simp add: algebra_simps)
  have h': "((maxY - my) * scale + CANVAS_H / 2) - ((minY - my) * scale + CANVAS_H / 2)
              = (maxY - minY) * scale"
    by (simp add: algebra_simps)
  have cxm: "(((minX - mx) * scale + CANVAS_W / 2) + ((maxX - mx) * scale + CANVAS_W / 2)) / 2
              = CANVAS_W / 2"
    by (simp add: mx_def algebra_simps)
  have cym: "(((minY - my) * scale + CANVAS_H / 2) + ((maxY - my) * scale + CANVAS_H / 2)) / 2
              = CANVAS_H / 2"
    by (simp add: my_def algebra_simps)
  have fit': "fitRibbonToViewport cs
      = map (\<lambda>c. c\<lparr>x := (x c - (minX + maxX) / 2) * scale + CANVAS_W / 2,
                     y := (y c - (minY + maxY) / 2) * scale + CANVAS_H / 2,
                     radius := radius c * scale\<rparr>) cs"
    using fit unfolding g_def mx_def my_def .
  have scale_eq': "scale = min 1 (min ((VIEWPORT - 2 * VIEW_PAD) / (maxX - minX))
                                     ((VIEWPORT - 2 * VIEW_PAD) / (maxY - minY)))"
    using scale_eq unfolding limit_def .
  have sw': "((maxX - mx) * scale + CANVAS_W / 2) - ((minX - mx) * scale + CANVAS_W / 2)
               \<le> VIEWPORT - 2 * VIEW_PAD"
    using sw unfolding w' limit_def .
  have sh': "((maxY - my) * scale + CANVAS_H / 2) - ((minY - my) * scale + CANVAS_H / 2)
               \<le> VIEWPORT - 2 * VIEW_PAD"
    using sh unfolding h' limit_def .
  have lim': "VIEWPORT - 2 * VIEW_PAD = 1040"
    using lim unfolding limit_def .
  show ?thesis
    apply (rule exI[of _ minX], rule exI[of _ maxX], rule exI[of _ minY], rule exI[of _ maxY])
    apply (rule exI[of _ "(minX - mx) * scale + CANVAS_W / 2"])
    apply (rule exI[of _ "(maxX - mx) * scale + CANVAS_W / 2"])
    apply (rule exI[of _ "(minY - my) * scale + CANVAS_H / 2"])
    apply (rule exI[of _ "(maxY - my) * scale + CANVAS_H / 2"])
    apply (rule exI[of _ scale])
    apply (intro conjI)
    apply (fact box)
    apply (fact scale_def)
    apply (fact scale_eq')
    apply (fact scale_pos)
    apply (fact scale_le)
    apply (fact fit')
    apply (fact box')
    apply (fact sw')
    apply (fact sh')
    apply (fact lim')
    apply (fact cxm)
    apply (fact cym)
    done
qed

subsection \<open>Viewport fit in rounded arithmetic\<close>

lemma tiny_le: "(1::real) / 2 ^ 1075 \<le> 1 / 2 ^ 53"
proof -
  have "(2::real) ^ 53 \<le> 2 ^ 1075" by (rule power_increasing) simp_all
  then show ?thesis by (simp add: frac_le)
qed

lemma big_le: "(4000000::real) \<le> 2 ^ 1023"
proof -
  have "(4000000::real) \<le> 2 ^ 53" by simp
  also have "\<dots> \<le> 2 ^ 1023" by (rule power_increasing) simp_all
  finally show ?thesis .
qed

lemma rounds_near:
  assumes "rounds rnd" "\<bar>v\<bar> \<le> 4000000"
  shows "\<bar>rnd v - v\<bar> \<le> 1 / 2000000000"
proof -
  have "\<bar>v\<bar> \<le> 2 ^ 1023" using assms(2) big_le by linarith
  then have "\<bar>rnd v - v\<bar> \<le> \<bar>v\<bar> / 2 ^ 53 + 1 / 2 ^ 1075"
    using assms(1) by (simp add: rounds_def)
  also have "\<dots> \<le> \<bar>v\<bar> / 2 ^ 53 + 1 / 2 ^ 53"
    using tiny_le by simp
  also have "\<dots> \<le> 4000000 / 2 ^ 53 + 1 / 2 ^ 53"
    using assms(2) by (simp add: divide_right_mono)
  also have "\<dots> \<le> 1 / 2000000000" by simp
  finally show ?thesis .
qed


lemma tiny_le2: "(1::real) / 2 ^ 1075 \<le> 1 / 2 ^ 106"
proof -
  have "(2::real) ^ 106 \<le> 2 ^ 1075" by (rule power_increasing) simp_all
  then show ?thesis by (simp add: frac_le)
qed

lemma rounds_rel:
  assumes "rounds rnd" "\<bar>v\<bar> \<le> 4000000"
  shows "\<bar>rnd v - v\<bar> \<le> \<bar>v\<bar> / 2 ^ 53 + 1 / 2 ^ 106"
proof -
  have "\<bar>v\<bar> \<le> 2 ^ 1023" using assms(2) big_le by linarith
  then have "\<bar>rnd v - v\<bar> \<le> \<bar>v\<bar> / 2 ^ 53 + 1 / 2 ^ 1075"
    using assms(1) by (simp add: rounds_def)
  with tiny_le2 show ?thesis by linarith
qed

lemma Min_near:
  fixes f g :: "'a \<Rightarrow> real"
  assumes "finite S" "S \<noteq> {}" "\<forall>c \<in> S. \<bar>f c - g c\<bar> \<le> e"
  shows "\<bar>Min (f ` S) - Min (g ` S)\<bar> \<le> e"
proof -
  have "Min (f ` S) \<in> f ` S" "Min (g ` S) \<in> g ` S"
    using assms(1,2) by (simp_all add: Min_in)
  then obtain cf cg where cf: "cf \<in> S" "Min (f ` S) = f cf" and cg: "cg \<in> S" "Min (g ` S) = g cg"
    by auto
  have "Min (f ` S) \<le> f cg" "Min (g ` S) \<le> g cf"
    using assms(1) cf(1) cg(1) by simp_all
  moreover have "\<bar>f cg - g cg\<bar> \<le> e" "\<bar>f cf - g cf\<bar> \<le> e"
    using assms(3) cf(1) cg(1) by simp_all
  ultimately show ?thesis using cf(2) cg(2) by linarith
qed

lemma Max_near:
  fixes f g :: "'a \<Rightarrow> real"
  assumes "finite S" "S \<noteq> {}" "\<forall>c \<in> S. \<bar>f c - g c\<bar> \<le> e"
  shows "\<bar>Max (f ` S) - Max (g ` S)\<bar> \<le> e"
proof -
  have "Max (f ` S) \<in> f ` S" "Max (g ` S) \<in> g ` S"
    using assms(1,2) by (simp_all add: Max_in)
  then obtain cf cg where cf: "cf \<in> S" "Max (f ` S) = f cf" and cg: "cg \<in> S" "Max (g ` S) = g cg"
    by auto
  have "f cg \<le> Max (f ` S)" "g cf \<le> Max (g ` S)"
    using assms(1) cf(1) cg(1) by simp_all
  moreover have "\<bar>f cg - g cg\<bar> \<le> e" "\<bar>f cf - g cf\<bar> \<le> e"
    using assms(3) cf(1) cg(1) by simp_all
  ultimately show ?thesis using cf(2) cg(2) by linarith
qed

lemma Min_scaled:
  fixes g :: "'a \<Rightarrow> real"
  assumes "finite S" "S \<noteq> {}" "0 \<le> s"
  shows "Min ((\<lambda>c. (g c - m) * s + t) ` S) = (Min (g ` S) - m) * s + t"
proof -
  have "mono (\<lambda>v. (v - m) * s + t)"
    using assms(3) by (auto intro!: monoI mult_right_mono)
  then have "(Min (g ` S) - m) * s + t = Min ((\<lambda>v. (v - m) * s + t) ` (g ` S))"
    using assms(1,2) by (intro mono_Min_commute) simp_all
  then show ?thesis by (simp add: image_image)
qed

lemma Max_scaled:
  fixes g :: "'a \<Rightarrow> real"
  assumes "finite S" "S \<noteq> {}" "0 \<le> s"
  shows "Max ((\<lambda>c. (g c - m) * s + t) ` S) = (Max (g ` S) - m) * s + t"
proof -
  have "mono (\<lambda>v. (v - m) * s + t)"
    using assms(3) by (auto intro!: monoI mult_right_mono)
  then have "(Max (g ` S) - m) * s + t = Max ((\<lambda>v. (v - m) * s + t) ` (g ` S))"
    using assms(1,2) by (intro mono_Max_commute) simp_all
  then show ?thesis by (simp add: image_image)
qed

lemma shrink: "0 \<le> s \<Longrightarrow> s \<le> 1 \<Longrightarrow> \<bar>v * s\<bar> \<le> \<bar>v\<bar>" for v s :: real
  by (simp add: abs_mult mult_left_le)

lemma axis_width:
  fixes p rad :: "'a \<Rightarrow> real"
  assumes rnd: "rounds rnd" and fin: "finite S" and ne: "S \<noteq> {}"
    and bound: "\<forall>c \<in> S. 1 \<le> rad c \<and> \<bar>p c\<bar> + rad c \<le> 1000000"
    and minP: "minP = Min ((\<lambda>c. rnd (p c - rad c)) ` S)"
    and maxP: "maxP = Max ((\<lambda>c. rnd (p c + rad c)) ` S)"
  shows "1 < rnd (maxP - minP) \<and> rnd (maxP - minP) \<le> 4000000
       \<and> \<bar>rnd (maxP - minP)
            - (Max ((\<lambda>c. p c + rad c) ` S) - Min ((\<lambda>c. p c - rad c) ` S))\<bar> \<le> 1 / 500000000"
proof -
  define e :: real where "e = 1 / 2000000000"
  have e: "0 < e" "e \<le> 1 / 2000000000" by (simp_all add: e_def)
  have near: "\<bar>rnd v - v\<bar> \<le> e" if "\<bar>v\<bar> \<le> 4000000" for v
    using rounds_near[OF rnd that] by (simp add: e_def)
  define a where "a = (\<lambda>c. p c - rad c)"
  define b where "b = (\<lambda>c. p c + rad c)"
  define L where "L = Min (a ` S)"
  define H where "H = Max (b ` S)"
  have ab: "\<bar>a c\<bar> \<le> 1000000" "\<bar>b c\<bar> \<le> 1000000" "a c + 2 \<le> b c" if "c \<in> S" for c
    using bound that by (auto simp: a_def b_def)
  have "L \<in> a ` S" "H \<in> b ` S"
    using fin ne by (simp_all add: L_def H_def Min_in Max_in)
  then obtain cL cH where cL: "cL \<in> S" "L = a cL" and cH: "cH \<in> S" "H = b cH"
    by auto
  have LH: "\<bar>L\<bar> \<le> 1000000" "\<bar>H\<bar> \<le> 1000000"
    using ab(1)[OF cL(1)] ab(2)[OF cH(1)] cL(2) cH(2) by simp_all
  have "b cL \<le> H" using fin cL(1) by (simp add: H_def)
  then have gap: "L + 2 \<le> H"
    using ab(3)[OF cL(1)] cL(2) by linarith
  have rab: "\<bar>rnd (a c) - a c\<bar> \<le> e" "\<bar>rnd (b c) - b c\<bar> \<le> e" if "c \<in> S" for c
    using ab(1,2)[OF that] by (intro near, linarith)+
  have minP_near: "\<bar>minP - L\<bar> \<le> e"
    unfolding minP L_def
    by (rule Min_near[OF fin ne]) (use rab in \<open>simp add: a_def\<close>)
  have maxP_near: "\<bar>maxP - H\<bar> \<le> e"
    unfolding maxP H_def
    by (rule Max_near[OF fin ne]) (use rab in \<open>simp add: b_def\<close>)
  have W: "\<bar>(maxP - minP) - (H - L)\<bar> \<le> 2 * e" "\<bar>maxP - minP\<bar> \<le> 4000000"
    using minP_near maxP_near LH e by linarith+
  have "\<bar>rnd (maxP - minP) - (maxP - minP)\<bar> \<le> e"
    using W(2) by (rule near)
  then have "1 < rnd (maxP - minP)" "rnd (maxP - minP) \<le> 4000000"
    "\<bar>rnd (maxP - minP) - (H - L)\<bar> \<le> 1 / 500000000"
    using W(1) gap LH e by linarith+
  then show ?thesis
    unfolding H_def L_def a_def b_def by blast
qed

lemma axis_fit:
  fixes p rad :: "'a \<Rightarrow> real"
  assumes rnd: "rounds rnd" and fin: "finite S" and ne: "S \<noteq> {}"
    and bound: "\<forall>c \<in> S. 1 \<le> rad c \<and> \<bar>p c\<bar> + rad c \<le> 1000000"
    and minP: "minP = Min ((\<lambda>c. rnd (p c - rad c)) ` S)"
    and maxP: "maxP = Max ((\<lambda>c. rnd (p c + rad c)) ` S)"
    and s0: "0 < s" and s1: "s \<le> 1" and sq: "s \<le> rnd (lmt / rnd (maxP - minP))"
    and lmt: "\<bar>lmt - 1040\<bar> \<le> 1 / 1000000000" and h: "\<bar>h - 540\<bar> \<le> 1 / 2000000000"
    and m: "m = rnd (rnd (minP + maxP) * (1 / 2))"
    and p': "\<And>c. p' c = rnd (rnd (rnd (p c - m) * s) + h)"
    and rad': "\<And>c. rad' c = rnd (rad c * s)"
  shows "Max ((\<lambda>c. p' c + rad' c) ` S) - Min ((\<lambda>c. p' c - rad' c) ` S) \<le> 1040 + 1 / 100000000
       \<and> \<bar>(Min ((\<lambda>c. p' c - rad' c) ` S) + Max ((\<lambda>c. p' c + rad' c) ` S)) / 2 - 540\<bar>
            \<le> 1 / 100000000"
proof -
  define e :: real where "e = 1 / 2000000000"
  have e: "0 < e" "e \<le> 1 / 2000000000" "1 / 2000000000 \<le> e" by (simp_all add: e_def)
  have near: "\<bar>rnd v - v\<bar> \<le> e" if "\<bar>v\<bar> \<le> 4000000" for v
    using rounds_near[OF rnd that] by (simp add: e_def)
  define a where "a = (\<lambda>c. p c - rad c)"
  define b where "b = (\<lambda>c. p c + rad c)"
  define L where "L = Min (a ` S)"
  define H where "H = Max (b ` S)"
  have ab: "\<bar>a c\<bar> \<le> 1000000" "\<bar>b c\<bar> \<le> 1000000" "a c + 2 \<le> b c" "\<bar>p c\<bar> \<le> 1000000"
      "0 \<le> rad c" "rad c \<le> 1000000" if "c \<in> S" for c
    using bound that by (auto simp: a_def b_def)
  have "L \<in> a ` S" "H \<in> b ` S"
    using fin ne by (simp_all add: L_def H_def Min_in Max_in)
  then obtain cL cH where cL: "cL \<in> S" "L = a cL" and cH: "cH \<in> S" "H = b cH"
    by auto
  have LH: "\<bar>L\<bar> \<le> 1000000" "\<bar>H\<bar> \<le> 1000000"
    using ab(1)[OF cL(1)] ab(2)[OF cH(1)] cL(2) cH(2) by simp_all
  have inbox: "L \<le> a c" "b c \<le> H" if "c \<in> S" for c
    using fin that by (simp_all add: L_def H_def)
  have gap: "L + 2 \<le> H"
    using inbox[OF cL(1)] ab(3)[OF cL(1)] cL(2) by linarith
  have rab: "\<bar>rnd (a c) - a c\<bar> \<le> e" "\<bar>rnd (b c) - b c\<bar> \<le> e" if "c \<in> S" for c
    using ab(1,2)[OF that] by (intro near, linarith)+
  have minP_near: "\<bar>minP - L\<bar> \<le> e"
    unfolding minP L_def
    by (rule Min_near[OF fin ne]) (use rab in \<open>simp add: a_def\<close>)
  have maxP_near: "\<bar>maxP - H\<bar> \<le> e"
    unfolding maxP H_def
    by (rule Max_near[OF fin ne]) (use rab in \<open>simp add: b_def\<close>)
  define W where "W = maxP - minP"
  have W: "\<bar>W - (H - L)\<bar> \<le> 2 * e" "\<bar>W\<bar> \<le> 4000000"
    using minP_near maxP_near LH e unfolding W_def by linarith+
  define bw where "bw = rnd W"
  have bwW: "\<bar>bw - W\<bar> \<le> e"
    unfolding bw_def using W(2) by (rule near)
  have bw: "H - L \<le> bw + 3 * e" "1 < bw" "bw \<le> 4000000"
    using bwW W(1) gap LH e by linarith+
  define q where "q = lmt / bw"
  have lmt': "0 \<le> lmt" "lmt \<le> 1041" using lmt by linarith+
  have q: "0 \<le> q" "q \<le> 1041" "q * bw = lmt"
  proof -
    show "0 \<le> q" using lmt' bw(2) by (simp add: q_def)
    have "lmt / bw \<le> lmt / 1" using lmt' bw(2) by (intro divide_left_mono) simp_all
    then show "q \<le> 1041" using lmt' by (simp add: q_def)
    show "q * bw = lmt" using bw(2) by (simp add: q_def)
  qed
  have "\<bar>rnd q - q\<bar> \<le> \<bar>q\<bar> / 2 ^ 53 + 1 / 2 ^ 106"
    using q by (intro rounds_rel[OF rnd]) simp
  then have rq: "rnd q \<le> q + q / 2 ^ 53 + 1 / 2 ^ 106"
    using q(1) by simp
  have sbw: "s * bw \<le> 1040 + 3 * e"
  proof -
    have "s \<le> rnd q" using sq by (simp add: q_def bw_def W_def)
    then have "s * bw \<le> rnd q * bw"
      using bw(2) by (simp add: mult_right_mono)
    also have "\<dots> \<le> (q + q / 2 ^ 53 + 1 / 2 ^ 106) * bw"
      using rq bw(2) by (simp add: mult_right_mono)
    also have "\<dots> = lmt + lmt / 2 ^ 53 + bw / 2 ^ 106"
      using q(3) by (simp add: algebra_simps add_divide_distrib)
    also have "\<dots> \<le> 1040 + 3 * e"
    proof -
      have "lmt / 2 ^ 53 \<le> 1041 / 2 ^ 53" using lmt'(2) by (simp add: divide_right_mono)
      moreover have "bw / 2 ^ 106 \<le> 4000000 / 2 ^ 106" using bw(3) by (simp add: divide_right_mono)
      moreover have "(1041::real) / 2 ^ 53 \<le> 1 / 4000000000" "(4000000::real) / 2 ^ 106 \<le> 1 / 4000000000"
        by simp_all
      ultimately show ?thesis using lmt e by linarith
    qed
    finally show ?thesis .
  qed
  have HLs: "(H - L) * s \<le> 1040 + 6 * e"
  proof -
    have "(H - L) * s \<le> (bw + 3 * e) * s"
      using bw(1) s0 by (simp add: mult_right_mono)
    also have "\<dots> = s * bw + 3 * e * s" by (simp add: algebra_simps)
    also have "\<dots> \<le> s * bw + 3 * e"
      using s0 s1 e by (simp add: mult_left_le)
    finally show ?thesis using sbw by linarith
  qed
  define t1 where "t1 = rnd (minP + maxP)"
  have t1: "\<bar>t1 - (minP + maxP)\<bar> \<le> e"
    unfolding t1_def using minP_near maxP_near LH e by (intro near) linarith
  have m_near: "\<bar>m - (L + H) / 2\<bar> \<le> 3 * e"
  proof -
    define t2 where "t2 = t1 * (1 / 2)"
    have t2: "t2 = t1 / 2" by (simp add: t2_def)
    then have "\<bar>t2\<bar> \<le> 4000000"
      using t1 minP_near maxP_near LH e by linarith
    then have "\<bar>rnd t2 - t2\<bar> \<le> e" by (rule near)
    moreover have "m = rnd t2" by (simp add: m t2_def t1_def)
    ultimately show ?thesis using t2 t1 minP_near maxP_near by argo
  qed
  have m_abs: "\<bar>m\<bar> \<le> 1000001" using m_near LH e by argo
  have s_le: "\<bar>v * s\<bar> \<le> \<bar>v\<bar>" for v
    using s0 s1 by (intro shrink) simp_all
  have per: "\<bar>p' c + rad' c - ((b c - m) * s + 540)\<bar> \<le> 5 * e
           \<and> \<bar>p' c - rad' c - ((a c - m) * s + 540)\<bar> \<le> 5 * e" if c: "c \<in> S" for c
  proof -
    define d where "d = p c - m"
    define D1 where "D1 = rnd d"
    define P1 where "P1 = rnd (D1 * s)"
    have d: "\<bar>d\<bar> \<le> 2000001" using ab(4)[OF c] m_abs unfolding d_def by linarith
    then have D1: "\<bar>D1 - d\<bar> \<le> e" unfolding D1_def by (intro near) simp
    have D1a: "\<bar>D1\<bar> \<le> 2000002" using D1 d e by linarith
    have "\<bar>D1 * s\<bar> \<le> 2000002" using s_le[of D1] D1a by linarith
    then have P1: "\<bar>P1 - D1 * s\<bar> \<le> e" unfolding P1_def by (intro near) simp
    have P1a: "\<bar>P1\<bar> \<le> 2000003" using P1 \<open>\<bar>D1 * s\<bar> \<le> 2000002\<close> e by linarith
    have "\<bar>P1 + h\<bar> \<le> 4000000" using P1a h by linarith
    then have pc: "\<bar>p' c - (P1 + h)\<bar> \<le> e"
      unfolding p' P1_def D1_def d_def by (rule near)
    have "\<bar>(D1 - d) * s\<bar> \<le> e" using s_le[of "D1 - d"] D1 by linarith
    then have Dd: "\<bar>D1 * s - d * s\<bar> \<le> e" by (simp add: algebra_simps)
    have pos: "\<bar>p' c - (d * s + 540)\<bar> \<le> 4 * e"
      using pc P1 Dd h e by linarith
    have "\<bar>rad c * s\<bar> \<le> 1000000" using s_le[of "rad c"] ab(5,6)[OF c] by linarith
    then have r: "\<bar>rad' c - rad c * s\<bar> \<le> e"
      unfolding rad' by (intro near) simp
    have "(b c - m) * s + 540 = (d * s + 540) + rad c * s"
         "(a c - m) * s + 540 = (d * s + 540) - rad c * s"
      by (simp_all add: a_def b_def d_def algebra_simps)
    then show ?thesis using pos r by linarith
  qed
  have s00: "0 \<le> s" using s0 by simp
  define mx where "mx = Max ((\<lambda>c. p' c + rad' c) ` S)"
  define mn where "mn = Min ((\<lambda>c. p' c - rad' c) ` S)"
  define hiT where "hiT = (H - m) * s + 540"
  define loT where "loT = (L - m) * s + 540"
  have hi: "\<bar>mx - hiT\<bar> \<le> 5 * e"
  proof -
    have "\<bar>Max ((\<lambda>c. p' c + rad' c) ` S) - Max ((\<lambda>c. (b c - m) * s + 540) ` S)\<bar> \<le> 5 * e"
      by (rule Max_near[OF fin ne]) (use per in blast)
    then show ?thesis
      unfolding Max_scaled[OF fin ne s00] H_def mx_def hiT_def .
  qed
  have lo: "\<bar>mn - loT\<bar> \<le> 5 * e"
  proof -
    have "\<bar>Min ((\<lambda>c. p' c - rad' c) ` S) - Min ((\<lambda>c. (a c - m) * s + 540) ` S)\<bar> \<le> 5 * e"
      by (rule Min_near[OF fin ne]) (use per in blast)
    then show ?thesis
      unfolding Min_scaled[OF fin ne s00] L_def mn_def loT_def .
  qed
  have diff: "hiT - loT = (H - L) * s"
    by (simp add: hiT_def loT_def algebra_simps)
  define k where "k = ((L + H) / 2 - m) * s"
  have mid: "loT + hiT = 1080 + 2 * k"
    by (simp add: hiT_def loT_def k_def field_simps)
  have k: "\<bar>k\<bar> \<le> 3 * e"
    unfolding k_def using s_le[of "(L + H) / 2 - m"] m_near by linarith
  have "mx - mn \<le> 1040 + 16 * e"
    using hi lo diff HLs by linarith
  moreover have "\<bar>(mn + mx) - 1080\<bar> \<le> 16 * e"
    using hi lo mid k by linarith
  ultimately have w: "mx - mn \<le> 1040 + 1 / 100000000" and c: "\<bar>(mn + mx) - 1080\<bar> \<le> 2 / 100000000"
    using e by linarith+
  from c have "\<bar>(mn + mx) / 2 - 540\<bar> \<le> 1 / 100000000" by argo
  with w show ?thesis
    unfolding mx_def mn_def by blast
qed

lemma fold_grow_box_fl_Some:
  "fold (grow_box_fl rnd) cs (Some (a, b, c, d))
     = Some (fold (\<lambda>k m. min m (rnd (x k - radius k))) cs a,
             fold (\<lambda>k m. max m (rnd (x k + radius k))) cs b,
             fold (\<lambda>k m. min m (rnd (y k - radius k))) cs c,
             fold (\<lambda>k m. max m (rnd (y k + radius k))) cs d)"
  by (induction cs arbitrary: a b c d) (simp_all add: grow_box_fl_def)

lemma bounding_box_fl_nonempty:
  assumes "cs \<noteq> []"
  shows "bounding_box_fl rnd cs
     = Some (Min ((\<lambda>c. rnd (x c - radius c)) ` set cs), Max ((\<lambda>c. rnd (x c + radius c)) ` set cs),
             Min ((\<lambda>c. rnd (y c - radius c)) ` set cs), Max ((\<lambda>c. rnd (y c + radius c)) ` set cs))"
proof -
  obtain k ks where cs: "cs = k # ks" using assms by (cases cs) auto
  show ?thesis
    unfolding cs
    by (simp add: bounding_box_fl_def grow_box_fl_def fold_grow_box_fl_Some fold_min_eq fold_max_eq)
qed

lemma fit_fl_box:
  assumes rnd: "rounds rnd" and ne: "cs \<noteq> []"
    and bound: "\<forall>c \<in> set cs. 1 \<le> radius c \<and> \<bar>x c\<bar> + radius c \<le> 1000000
                                 \<and> \<bar>y c\<bar> + radius c \<le> 1000000"
  shows "\<exists>minX maxX minY maxY loX hiX loY hiY limit scale minX' maxX' minY' maxY'.
       bounding_box_fl rnd cs = Some (minX, maxX, minY, maxY)
     \<and> bounding_box cs = Some (loX, hiX, loY, hiY)
     \<and> \<bar>rnd (maxX - minX) - (hiX - loX)\<bar> \<le> 1 / 500000000
     \<and> \<bar>rnd (maxY - minY) - (hiY - loY)\<bar> \<le> 1 / 500000000
     \<and> limit = rnd (VIEWPORT - rnd (VIEW_PAD * 2)) \<and> \<bar>limit - 1040\<bar> \<le> 1 / 1000000000
     \<and> scale = fit_scale_fl rnd (rnd (maxX - minX)) (rnd (maxY - minY))
     \<and> scale = min 1 (min (rnd (limit / rnd (maxX - minX))) (rnd (limit / rnd (maxY - minY))))
     \<and> 0 < scale \<and> scale \<le> 1
     \<and> fitRibbonToViewport_fl rnd cs
          = map (\<lambda>c. c\<lparr>x := rnd (rnd (rnd (x c - rnd (rnd (minX + maxX) * (1 / 2))) * scale)
                                    + rnd (CANVAS_W * (1 / 2))),
                         y := rnd (rnd (rnd (y c - rnd (rnd (minY + maxY) * (1 / 2))) * scale)
                                    + rnd (CANVAS_H * (1 / 2))),
                         radius := rnd (radius c * scale)\<rparr>) cs
     \<and> bounding_box (fitRibbonToViewport_fl rnd cs) = Some (minX', maxX', minY', maxY')
     \<and> maxX' - minX' \<le> 1040 + 1 / 100000000
     \<and> maxY' - minY' \<le> 1040 + 1 / 100000000
     \<and> \<bar>(minX' + maxX') / 2 - 540\<bar> \<le> 1 / 100000000
     \<and> \<bar>(minY' + maxY') / 2 - 540\<bar> \<le> 1 / 100000000"
proof -
  define minX where "minX = Min ((\<lambda>c. rnd (x c - radius c)) ` set cs)"
  define maxX where "maxX = Max ((\<lambda>c. rnd (x c + radius c)) ` set cs)"
  define minY where "minY = Min ((\<lambda>c. rnd (y c - radius c)) ` set cs)"
  define maxY where "maxY = Max ((\<lambda>c. rnd (y c + radius c)) ` set cs)"
  define lmt where "lmt = rnd (VIEWPORT - rnd (VIEW_PAD * 2))"
  define h where "h = rnd (540::real)"
  define scale where "scale = fit_scale_fl rnd (rnd (maxX - minX)) (rnd (maxY - minY))"
  define mx where "mx = rnd (rnd (minX + maxX) * (1 / 2))"
  define my where "my = rnd (rnd (minY + maxY) * (1 / 2))"
  define px :: "circle \<Rightarrow> real" where "px = (\<lambda>c. rnd (rnd (rnd (x c - mx) * scale) + h))"
  define py :: "circle \<Rightarrow> real" where "py = (\<lambda>c. rnd (rnd (rnd (y c - my) * scale) + h))"
  define pr :: "circle \<Rightarrow> real" where "pr = (\<lambda>c. rnd (radius c * scale))"
  define g :: "circle \<Rightarrow> circle" where "g = (\<lambda>c. c\<lparr>x := px c, y := py c, radius := pr c\<rparr>)"
  have fin: "finite (set cs)" and ne': "set cs \<noteq> {}" using ne by simp_all
  have bdx: "\<forall>c \<in> set cs. 1 \<le> radius c \<and> \<bar>x c\<bar> + radius c \<le> 1000000"
    and bdy: "\<forall>c \<in> set cs. 1 \<le> radius c \<and> \<bar>y c\<bar> + radius c \<le> 1000000"
    using bound by simp_all
  have box: "bounding_box_fl rnd cs = Some (minX, maxX, minY, maxY)"
    unfolding minX_def maxX_def minY_def maxY_def using ne by (rule bounding_box_fl_nonempty)
  note wx = axis_width[OF rnd fin ne' bdx minX_def maxX_def]
  note wy = axis_width[OF rnd fin ne' bdy minY_def maxY_def]
  have l40: "\<bar>rnd (VIEW_PAD * 2) - 40\<bar> \<le> 1 / 2000000000"
    using rounds_near[OF rnd, of "VIEW_PAD * 2"] by (simp add: VIEW_PAD_def)
  then have "\<bar>VIEWPORT - rnd (VIEW_PAD * 2)\<bar> \<le> 4000000"
    unfolding VIEWPORT_def by linarith
  from rounds_near[OF rnd this] l40 have lmt: "\<bar>lmt - 1040\<bar> \<le> 1 / 1000000000"
    unfolding lmt_def VIEWPORT_def by linarith
  have h: "\<bar>h - 540\<bar> \<le> 1 / 2000000000"
    unfolding h_def by (rule rounds_near[OF rnd]) simp
  have scale_eq: "scale = min 1 (min (rnd (lmt / rnd (maxX - minX))) (rnd (lmt / rnd (maxY - minY))))"
    using wx wy by (auto simp: scale_def fit_scale_fl_def lmt_def Let_def)
  have quot: "0 < rnd (lmt / w)" if "1 < w" "w \<le> 4000000" for w
  proof -
    have "1039 / 4000000 \<le> lmt / w"
      using that lmt by (intro frac_le) linarith+
    moreover have "lmt / w \<le> lmt / 1"
      using that lmt by (intro divide_left_mono) linarith+
    ultimately have "\<bar>lmt / w\<bar> \<le> 4000000" "1039 / 4000000 \<le> lmt / w"
      using lmt by linarith+
    with rounds_near[OF rnd, of "lmt / w"] show ?thesis by linarith
  qed
  have scale_pos: "0 < scale"
    unfolding scale_eq using quot wx wy by simp
  have scale_le: "scale \<le> 1" unfolding scale_eq by simp
  have sx: "scale \<le> rnd (lmt / rnd (maxX - minX))"
    and sy: "scale \<le> rnd (lmt / rnd (maxY - minY))"
    unfolding scale_eq by simp_all
  have ax: "Max ((\<lambda>c. px c + pr c) ` set cs) - Min ((\<lambda>c. px c - pr c) ` set cs)
                \<le> 1040 + 1 / 100000000
       \<and> \<bar>(Min ((\<lambda>c. px c - pr c) ` set cs) + Max ((\<lambda>c. px c + pr c) ` set cs)) / 2 - 540\<bar>
            \<le> 1 / 100000000"
    by (rule axis_fit[OF rnd fin ne' bdx minX_def maxX_def scale_pos scale_le sx lmt h mx_def])
       (simp_all add: px_def pr_def)
  have ay: "Max ((\<lambda>c. py c + pr c) ` set cs) - Min ((\<lambda>c. py c - pr c) ` set cs)
                \<le> 1040 + 1 / 100000000
       \<and> \<bar>(Min ((\<lambda>c. py c - pr c) ` set cs) + Max ((\<lambda>c. py c + pr c) ` set cs)) / 2 - 540\<bar>
            \<le> 1 / 100000000"
    by (rule axis_fit[OF rnd fin ne' bdy minY_def maxY_def scale_pos scale_le sy lmt h my_def])
       (simp_all add: py_def pr_def)
  have fit: "fitRibbonToViewport_fl rnd cs = map g cs"
    by (simp add: fitRibbonToViewport_fl_def box Let_def g_def scale_def mx_def my_def
          px_def py_def pr_def h_def CANVAS_W_def CANVAS_H_def)
  have img:
    "(\<lambda>c. x c - radius c) ` set (map g cs) = (\<lambda>c. px c - pr c) ` set cs"
    "(\<lambda>c. x c + radius c) ` set (map g cs) = (\<lambda>c. px c + pr c) ` set cs"
    "(\<lambda>c. y c - radius c) ` set (map g cs) = (\<lambda>c. py c - pr c) ` set cs"
    "(\<lambda>c. y c + radius c) ` set (map g cs) = (\<lambda>c. py c + pr c) ` set cs"
    by (simp_all add: image_image g_def)
  have "map g cs \<noteq> []" using ne by simp
  from bounding_box_nonempty[OF this]
  have box': "bounding_box (fitRibbonToViewport_fl rnd cs)
      = Some (Min ((\<lambda>c. px c - pr c) ` set cs), Max ((\<lambda>c. px c + pr c) ` set cs),
              Min ((\<lambda>c. py c - pr c) ` set cs), Max ((\<lambda>c. py c + pr c) ` set cs))"
    unfolding fit img .
  have xbox: "bounding_box cs
      = Some (Min ((\<lambda>c. x c - radius c) ` set cs), Max ((\<lambda>c. x c + radius c) ` set cs),
              Min ((\<lambda>c. y c - radius c) ` set cs), Max ((\<lambda>c. y c + radius c) ` set cs))"
    using ne by (rule bounding_box_nonempty)
  have fit': "fitRibbonToViewport_fl rnd cs
          = map (\<lambda>c. c\<lparr>x := rnd (rnd (rnd (x c - rnd (rnd (minX + maxX) * (1 / 2))) * scale)
                                    + rnd (CANVAS_W * (1 / 2))),
                         y := rnd (rnd (rnd (y c - rnd (rnd (minY + maxY) * (1 / 2))) * scale)
                                    + rnd (CANVAS_H * (1 / 2))),
                         radius := rnd (radius c * scale)\<rparr>) cs"
    by (simp add: fitRibbonToViewport_fl_def box Let_def scale_def)
  show ?thesis
    apply (rule exI[of _ minX], rule exI[of _ maxX], rule exI[of _ minY], rule exI[of _ maxY])
    apply (rule exI[of _ "Min ((\<lambda>c. x c - radius c) ` set cs)"])
    apply (rule exI[of _ "Max ((\<lambda>c. x c + radius c) ` set cs)"])
    apply (rule exI[of _ "Min ((\<lambda>c. y c - radius c) ` set cs)"])
    apply (rule exI[of _ "Max ((\<lambda>c. y c + radius c) ` set cs)"])
    apply (rule exI[of _ lmt], rule exI[of _ scale])
    apply (rule exI[of _ "Min ((\<lambda>c. px c - pr c) ` set cs)"])
    apply (rule exI[of _ "Max ((\<lambda>c. px c + pr c) ` set cs)"])
    apply (rule exI[of _ "Min ((\<lambda>c. py c - pr c) ` set cs)"])
    apply (rule exI[of _ "Max ((\<lambda>c. py c + pr c) ` set cs)"])
    apply (intro conjI)
    apply (fact box)
    apply (fact xbox)
    apply (rule conjunct2[OF conjunct2[OF wx]])
    apply (rule conjunct2[OF conjunct2[OF wy]])
    apply (fact lmt_def)
    apply (fact lmt)
    apply (fact scale_def)
    apply (fact scale_eq)
    apply (fact scale_pos)
    apply (fact scale_le)
    apply (fact fit')
    apply (fact box')
    apply (rule conjunct1[OF ax])
    apply (rule conjunct1[OF ay])
    apply (rule conjunct2[OF ax])
    apply (rule conjunct2[OF ay])
    done
qed


lemma worst_le: "0 \<le> v \<Longrightarrow> worst v \<le> v"
  by (simp add: worst_def)

lemma rounds_worst: "rounds worst"
  by (simp add: rounds_def worst_def)

text \<open>
  C7. For a non-empty circle list with radii of at least 1 and coordinates within \<open>10\<^sup>6\<close>
  (as the chains of the generator are, \<open>dfs_fl_chain_in_range\<close>), in doubles: the width and
  height the fit computes are the true ones up to rounding; the scale applied is \<open>min(1, limit / bbox_width, limit / bbox_height)\<close>
  as computed, with \<open>limit = VIEWPORT - 2 * VIEW_PAD = 1040\<close> up to rounding; it is positive
  and at most 1; and the radius-extended bounding box of the circles the fit stores is at
  most \<open>1040 + 10\<^sup>-\<^sup>8\<close> wide and high, with its centre within \<open>10\<^sup>-\<^sup>8\<close> of the canvas centre.
\<close>

theorem fitRibbonToViewport_fits_within_rounding:
  assumes rnd: "rounds rnd" and ne: "cs \<noteq> []"
    and bound: "\<forall>c \<in> set cs. 1 \<le> radius c \<and> \<bar>x c\<bar> + radius c \<le> 1000000
                                 \<and> \<bar>y c\<bar> + radius c \<le> 1000000"
  shows "\<exists>minX maxX minY maxY loX hiX loY hiY limit scale minX' maxX' minY' maxY'.
       bounding_box_fl rnd cs = Some (minX, maxX, minY, maxY)
     \<and> bounding_box cs = Some (loX, hiX, loY, hiY)
     \<and> \<bar>rnd (maxX - minX) - (hiX - loX)\<bar> \<le> 1 / 500000000
     \<and> \<bar>rnd (maxY - minY) - (hiY - loY)\<bar> \<le> 1 / 500000000
     \<and> limit = rnd (VIEWPORT - rnd (VIEW_PAD * 2)) \<and> \<bar>limit - 1040\<bar> \<le> 1 / 1000000000
     \<and> scale = fit_scale_fl rnd (rnd (maxX - minX)) (rnd (maxY - minY))
     \<and> scale = min 1 (min (rnd (limit / rnd (maxX - minX))) (rnd (limit / rnd (maxY - minY))))
     \<and> 0 < scale \<and> scale \<le> 1
     \<and> fitRibbonToViewport_fl rnd cs
          = map (\<lambda>c. c\<lparr>x := rnd (rnd (rnd (x c - rnd (rnd (minX + maxX) * (1 / 2))) * scale)
                                    + rnd (CANVAS_W * (1 / 2))),
                         y := rnd (rnd (rnd (y c - rnd (rnd (minY + maxY) * (1 / 2))) * scale)
                                    + rnd (CANVAS_H * (1 / 2))),
                         radius := rnd (radius c * scale)\<rparr>) cs
     \<and> bounding_box (fitRibbonToViewport_fl rnd cs) = Some (minX', maxX', minY', maxY')
     \<and> maxX' - minX' \<le> 1040 + 1 / 100000000
     \<and> maxY' - minY' \<le> 1040 + 1 / 100000000
     \<and> \<bar>(minX' + maxX') / 2 - 540\<bar> \<le> 1 / 100000000
     \<and> \<bar>(minY' + maxY') / 2 - 540\<bar> \<le> 1 / 100000000"
  using assms by (rule fit_fl_box)

theorem fitRibbonToViewport_fits_within_rounding_witness:
  "\<exists>minX maxX minY maxY scale minX' maxX' minY' maxY'.
       bounding_box_fl worst wide_pair = Some (minX, maxX, minY, maxY)
     \<and> scale = fit_scale_fl worst (worst (maxX - minX)) (worst (maxY - minY))
     \<and> 0 < scale \<and> scale < 3 / 4
     \<and> bounding_box (fitRibbonToViewport_fl worst wide_pair) = Some (minX', maxX', minY', maxY')
     \<and> maxX' - minX' \<le> 1040 + 1 / 100000000
     \<and> maxY' - minY' \<le> 1040 + 1 / 100000000
     \<and> \<bar>(minX' + maxX') / 2 - 540\<bar> \<le> 1 / 100000000
     \<and> \<bar>(minY' + maxY') / 2 - 540\<bar> \<le> 1 / 100000000"
proof -
  have ne: "wide_pair \<noteq> []" by (simp add: wide_pair_def)
  have bound: "\<forall>c \<in> set wide_pair. 1 \<le> radius c \<and> \<bar>x c\<bar> + radius c \<le> 1000000
                                 \<and> \<bar>y c\<bar> + radius c \<le> 1000000"
    by (simp add: wide_pair_def)
  from fitRibbonToViewport_fits_within_rounding[OF rounds_worst ne bound] obtain minX maxX minY maxY loX hiX loY hiY limit scale
      minX' maxX' minY' maxY' where
    box: "bounding_box_fl worst wide_pair = Some (minX, maxX, minY, maxY)"
    and xbox: "bounding_box wide_pair = Some (loX, hiX, loY, hiY)"
    and bw: "\<bar>worst (maxX - minX) - (hiX - loX)\<bar> \<le> 1 / 500000000"
    and lim: "\<bar>limit - 1040\<bar> \<le> 1 / 1000000000"
    and sc: "scale = fit_scale_fl worst (worst (maxX - minX)) (worst (maxY - minY))"
    and sc_eq: "scale = min 1 (min (worst (limit / worst (maxX - minX))) (worst (limit / worst (maxY - minY))))"
    and pos: "0 < scale"
    and box': "bounding_box (fitRibbonToViewport_fl worst wide_pair) = Some (minX', maxX', minY', maxY')"
    and fits: "maxX' - minX' \<le> 1040 + 1 / 100000000" "maxY' - minY' \<le> 1040 + 1 / 100000000"
      "\<bar>(minX' + maxX') / 2 - 540\<bar> \<le> 1 / 100000000" "\<bar>(minY' + maxY') / 2 - 540\<bar> \<le> 1 / 100000000"
    by blast
  have "bounding_box wide_pair = Some (- 50, 1408, - 50, 50)"
    by (simp add: bounding_box_def grow_box_def wide_pair_def)
  with xbox have "hiX - loX = 1458" by simp
  with bw have w: "1457 \<le> worst (maxX - minX)" by linarith
  have "0 \<le> limit / worst (maxX - minX)"
    using w lim by (intro divide_nonneg_nonneg) linarith+
  then have "worst (limit / worst (maxX - minX)) \<le> limit / worst (maxX - minX)"
    by (rule worst_le)
  moreover have "scale \<le> worst (limit / worst (maxX - minX))"
    unfolding sc_eq by simp
  ultimately have "scale \<le> limit / worst (maxX - minX)" by linarith
  also have "\<dots> \<le> 1041 / 1457"
    using w lim by (intro frac_le) linarith+
  finally have "scale < 3 / 4" by simp
  with box sc pos box' fits show ?thesis by blast
qed

subsection \<open>The back-tracking search\<close>

lemma frame_simps [simp]:
  "outsideCount (count_try s) = outsideCount s"
  "outsideCount (record_best s) = outsideCount s"
  "outsideCount (advance s) = outsideCount s"
  "outsideCount (push next s) = outsideCount s + (if fullyOutside next then 1 else 0)"
  "outsideCount (pop next s) = outsideCount s - (if fullyOutside next then 1 else 0)"
  "bestCircles (count_try s) = bestCircles s"
  "bestCircles (advance s) = bestCircles s"
  "bestCircles (push next s) = bestCircles s"
  "bestCircles (pop next s) = bestCircles s"
  "totalTries (count_try s) = totalTries s + 1"
  "totalTries (record_best s) = totalTries s"
  "totalTries (advance s) = totalTries s"
  "totalTries (push next s) = totalTries s"
  "totalTries (pop next s) = totalTries s"
  by (simp_all add: count_try_def record_best_def advance_def push_def pop_def Let_def)

lemma dfs_fan_frame:
  "circles (dfs rng s) = circles s \<and> outsideCount (dfs rng s) = outsideCount s"
  "circles (fan rng lst ang s) = circles s \<and> outsideCount (fan rng lst ang s) = outsideCount s"
proof (induction rng s and rng lst ang s rule: dfs_fan.induct)
  case (1 rng s)
  then show ?case by (subst (1 2) dfs.simps) simp
next
  case (2 rng lst ang s)
  then show ?case by (subst (1 2) fan.simps) simp
qed

lemma counted_simps [simp]:
  "counted (count_try s) = counted s"
  "counted (record_best s) = counted s"
  "counted (advance s) = counted s"
  by (simp_all add: counted_def)

lemma counted_push: "counted s \<Longrightarrow> counted (push next s)"
  by (simp add: counted_def)

lemma draw_radius_range:
  "valid_rng rng \<Longrightarrow> MIN_R \<le> draw_radius rng s \<and> draw_radius rng s < MAX_R"
  by (simp add: valid_rng_def draw_radius_def random2_def MIN_R_def MAX_R_def)

lemma best_invariant:
  fixes P Q :: "circle list \<Rightarrow> bool"
  assumes step: "\<And>cs ang newR. P cs \<Longrightarrow> cs \<noteq> [] \<Longrightarrow> length cs < MAX_CIRCLES_dfs \<Longrightarrow>
                 MIN_R \<le> newR \<Longrightarrow> newR < MAX_R \<Longrightarrow>
                 \<not> overlapsAny_dfs cs (candidate (last cs) ang newR) \<Longrightarrow>
                 P (cs @ [candidate (last cs) ang newR])"
    and keep: "\<And>cs. P cs \<Longrightarrow> TARGET_OUTSIDE \<le> int (length (filter fullyOutside cs)) \<Longrightarrow> Q cs"
  shows "P (circles s) \<Longrightarrow> circles s \<noteq> [] \<Longrightarrow> counted s \<Longrightarrow> Q (bestCircles s)
           \<Longrightarrow> valid_rng rng \<Longrightarrow> Q (bestCircles (dfs rng s))"
    and "P (circles s) \<Longrightarrow> circles s \<noteq> [] \<Longrightarrow> counted s \<Longrightarrow> Q (bestCircles s)
           \<Longrightarrow> length (circles s) < MAX_CIRCLES_dfs \<Longrightarrow> lst = last (circles s)
           \<Longrightarrow> valid_rng rng \<Longrightarrow> Q (bestCircles (fan rng lst ang s))"
proof (induction rng s and rng lst ang s rule: dfs_fan.induct)
  case (1 rng s)
  let ?t = "record_best (count_try s)"
  have Qt: "Q (bestCircles ?t)"
  proof (cases "TARGET_OUTSIDE \<le> outsideCount s \<and> length (bestCircles s) < length (circles s)")
    case True
    then have "TARGET_OUTSIDE \<le> int (length (filter fullyOutside (circles s)))"
      using "1.prems"(3) by (simp add: counted_def)
    then have "Q (circles s)"
      using "1.prems"(1) by (rule keep[rotated])
    with True show ?thesis by (simp add: record_best_def count_try_def)
  next
    case False
    then show ?thesis using "1.prems"(4) by (auto simp: record_best_def count_try_def)
  qed
  consider (spent) "MAX_TOTAL_TRIES < totalTries (count_try s)"
    | (cap) "\<not> MAX_TOTAL_TRIES < totalTries (count_try s)" "MAX_CIRCLES_dfs \<le> length (circles ?t)"
    | (go) "\<not> MAX_TOTAL_TRIES < totalTries (count_try s)" "\<not> MAX_CIRCLES_dfs \<le> length (circles ?t)"
    by blast
  then show ?case
  proof cases
    case spent
    then have "dfs rng s = count_try s" by (subst dfs.simps) simp
    then show ?thesis using "1.prems"(4) by simp
  next
    case cap
    then have "dfs rng s = ?t" by (subst dfs.simps) simp
    then show ?thesis using Qt by simp
  next
    case go
    then have eq: "dfs rng s = fan rng (last (circles ?t)) 0 ?t" by (subst dfs.simps) simp
    have "Q (bestCircles (fan rng (last (circles ?t)) 0 ?t))"
      using go "1.prems" Qt by (intro "1.IH") simp_all
    then show ?thesis by (simp only: eq)
  qed
next
  case (2 rng lst ang s)
  let ?c = "candidate lst ang (draw_radius rng s)"
  let ?t = "push ?c (advance s)"
  let ?u = "pop ?c (dfs rng ?t)"
  consider (over) "\<not> ang < TWO_PI"
    | (skip) "ang < TWO_PI" "overlapsAny_dfs (circles (advance s)) ?c"
    | (down) "ang < TWO_PI" "\<not> overlapsAny_dfs (circles (advance s)) ?c"
    by blast
  then show ?case
  proof cases
    case over
    then have "fan rng lst ang s = s" by (subst fan.simps) simp
    then show ?thesis using "2.prems"(4) by simp
  next
    case skip
    then have eq: "fan rng lst ang s = fan rng lst (ang + ANGLE_STEP) (advance s)"
      by (subst fan.simps) simp
    have "Q (bestCircles (fan rng lst (ang + ANGLE_STEP) (advance s)))"
      using skip "2.prems" by (intro "2.IH"(1)) simp_all
    then show ?thesis by (simp only: eq)
  next
    case down
    then have eq: "fan rng lst ang s = fan rng lst (ang + ANGLE_STEP) ?u"
      by (subst fan.simps) simp
    have r: "MIN_R \<le> draw_radius rng s" "draw_radius rng s < MAX_R"
      using draw_radius_range[OF "2.prems"(7)] by simp_all
    have "P (circles s @ [candidate (last (circles s)) ang (draw_radius rng s)])"
      using "2.prems"(1,2,5) r down(2) "2.prems"(6) by (intro step) simp_all
    then have Pt: "P (circles ?t)" using "2.prems"(6) by simp
    have Qd: "Q (bestCircles (dfs rng ?t))"
      using down Pt "2.prems"(3,4,7) by (intro "2.IH"(2)) (simp_all add: counted_push)
    have cu: "circles ?u = circles s"
      by (simp add: dfs_fan_frame)
    have "counted ?u"
      using "2.prems"(3) by (simp add: counted_def dfs_fan_frame)
    then have "Q (bestCircles (fan rng lst (ang + ANGLE_STEP) ?u))"
      using down "2.prems" Qd cu by (intro "2.IH"(3)) simp_all
    then show ?thesis by (simp only: eq)
  qed
qed

lemma centre_dist_commute: "centre_dist c d = centre_dist d c"
  by (simp add: centre_dist_def dist_p5_def power2_commute)

lemma dist_polar:
  "dist_p5 a b (a + cos ang * d) (b + sin ang * d) = \<bar>d\<bar>"
proof -
  have "(cos ang * d)\<^sup>2 + (sin ang * d)\<^sup>2 = ((cos ang)\<^sup>2 + (sin ang)\<^sup>2) * d\<^sup>2"
    by (simp only: power_mult_distrib distrib_right)
  also have "\<dots> = d\<^sup>2"
    by simp
  finally show ?thesis
    by (simp add: dist_p5_def)
qed

lemma tangent_chain_snoc:
  assumes ok: "tangent_chain eps cs" and ne: "cs \<noteq> []" and eps: "0 \<le> eps"
    and touch: "centre_dist nc (last cs) = radius nc + radius (last cs)"
    and clear: "\<forall>c \<in> set cs. \<not> centre_dist c nc < radius c + radius nc - eps"
  shows "tangent_chain eps (cs @ [nc])"
  unfolding tangent_chain_def
proof (intro conjI ballI)
  fix i assume "i \<in> {1 ..< length (cs @ [nc])}"
  then have i: "1 \<le> i" "i \<le> length cs" by auto
  show "\<bar>centre_dist ((cs @ [nc]) ! i) ((cs @ [nc]) ! (i - 1))
          - (radius ((cs @ [nc]) ! i) + radius ((cs @ [nc]) ! (i - 1)))\<bar> \<le> eps"
  proof (cases "i = length cs")
    case True
    then have "(cs @ [nc]) ! i = nc" "(cs @ [nc]) ! (i - 1) = last cs"
      using ne i by (simp_all add: nth_append last_conv_nth)
    then show ?thesis using touch eps by simp
  next
    case False
    then have "i < length cs" using i by simp
    then have "(cs @ [nc]) ! i = cs ! i" "(cs @ [nc]) ! (i - 1) = cs ! (i - 1)"
      by (simp_all add: nth_append)
    moreover have "i \<in> {1 ..< length cs}" using i \<open>i < length cs\<close> by simp
    ultimately show ?thesis using ok unfolding tangent_chain_def by simp
  qed
next
  fix i j assume "i \<in> {0 ..< length (cs @ [nc])}" and "j \<in> {0 ..< i - 1}"
  then have i: "i \<le> length cs" and j: "j < i - 1" by auto
  show "radius ((cs @ [nc]) ! i) + radius ((cs @ [nc]) ! j) - eps
          \<le> centre_dist ((cs @ [nc]) ! i) ((cs @ [nc]) ! j)"
  proof (cases "i = length cs")
    case True
    then have "(cs @ [nc]) ! i = nc" "(cs @ [nc]) ! j = cs ! j" "cs ! j \<in> set cs"
      using j by (simp_all add: nth_append)
    then show ?thesis
      using clear centre_dist_commute[of nc "cs ! j"] by (auto simp: not_less add.commute)
  next
    case False
    then have "i < length cs" using i by simp
    then have "(cs @ [nc]) ! i = cs ! i" "(cs @ [nc]) ! j = cs ! j"
      using j by (simp_all add: nth_append)
    moreover have "i \<in> {0 ..< length cs}" "j \<in> {0 ..< i - 1}"
      using \<open>i < length cs\<close> j by simp_all
    ultimately show ?thesis using ok unfolding tangent_chain_def by simp
  qed
qed

lemma tangent_chain_single: "0 \<le> eps \<Longrightarrow> tangent_chain eps [c]"
  by (simp add: tangent_chain_def)

lemma candidate_touches:
  "0 \<le> radius lst + newR \<Longrightarrow>
   centre_dist (candidate lst ang newR) lst = radius (candidate lst ang newR) + radius lst"
proof -
  assume d: "0 \<le> radius lst + newR"
  have "centre_dist (candidate lst ang newR) lst = centre_dist lst (candidate lst ang newR)"
    by (rule centre_dist_commute)
  also have "\<dots> = \<bar>radius lst + newR\<bar>"
    using dist_polar[of "x lst" "y lst" ang "radius lst + newR"]
    by (simp add: centre_dist_def candidate_def Let_def)
  also have "\<dots> = radius (candidate lst ang newR) + radius lst"
    using d by (simp add: candidate_def Let_def)
  finally show ?thesis .
qed

lemma sound_chain_push_dfs:
  assumes "sound_chain (1 / 10) cs" "cs \<noteq> []" "MIN_R \<le> newR"
    and "\<not> overlapsAny_dfs cs (candidate (last cs) ang newR)"
  shows "sound_chain (1 / 10) (cs @ [candidate (last cs) ang newR])"
proof -
  have r: "0 \<le> newR" using assms(3) by (simp add: MIN_R_def)
  have l: "0 \<le> radius (last cs)" using assms(1,2) by (simp add: sound_chain_def)
  have "tangent_chain (1 / 10) (cs @ [candidate (last cs) ang newR])"
  proof (rule tangent_chain_snoc)
    show "tangent_chain (1 / 10) cs" using assms(1) by (simp add: sound_chain_def)
    show "cs \<noteq> []" by fact
    show "(0::real) \<le> 1 / 10" by simp
    show "centre_dist (candidate (last cs) ang newR) (last cs)
            = radius (candidate (last cs) ang newR) + radius (last cs)"
      using r l by (intro candidate_touches) simp
    show "\<forall>c \<in> set cs. \<not> centre_dist c (candidate (last cs) ang newR)
            < radius c + radius (candidate (last cs) ang newR) - 1 / 10"
      using assms(4) by (simp add: overlapsAny_dfs_def centre_dist_def)
  qed
  moreover have "radius (candidate (last cs) ang newR) = newR"
    by (simp add: candidate_def Let_def)
  ultimately show ?thesis using assms(1) r by (simp add: sound_chain_def)
qed

lemma seed_dfs_fields:
  "radius (fst (seed_dfs rng)) = random2 MIN_R MAX_R (rng 1)"
  "edge (fst (seed_dfs rng)) = Some \<lfloor>random1 4 (rng 0)\<rfloor>"
  by (simp_all add: seed_dfs_def Let_def split_def)

lemma seed_radius_range:
  "valid_rng rng \<Longrightarrow> MIN_R \<le> random2 MIN_R MAX_R (rng n) \<and> random2 MIN_R MAX_R (rng n) < MAX_R"
  by (simp add: valid_rng_def random2_def MIN_R_def MAX_R_def)

lemma seed_edge_range:
  "valid_rng rng \<Longrightarrow> 0 \<le> \<lfloor>random1 4 (rng 0)\<rfloor> \<and> \<lfloor>random1 4 (rng 0)\<rfloor> < 4"
proof -
  assume "valid_rng rng"
  then have "0 \<le> rng 0" "rng 0 < 1" by (simp_all add: valid_rng_def)
  then have "0 \<le> random1 4 (rng 0)" "random1 4 (rng 0) < 4"
    by (simp_all add: random1_def)
  then show ?thesis by (simp add: floor_less_iff)
qed

lemma search_start_simps [simp]:
  "circles (search_start rng) = [fst (seed_dfs rng)]"
  "bestCircles (search_start rng) = [fst (seed_dfs rng)]"
  "totalTries (search_start rng) = 0"
  "counted (search_start rng)"
  by (simp_all add: search_start_def Let_def counted_def)

lemma dfs_best_sound:
  assumes "valid_rng rng"
  shows "sound_chain (1 / 10) (generateTouchingCircles_dfs rng)"
  unfolding generateTouchingCircles_dfs_def
proof (rule best_invariant(1)[where P = "sound_chain (1 / 10)"])
  show "sound_chain (1 / 10) (circles (search_start rng))"
       "sound_chain (1 / 10) (bestCircles (search_start rng))"
    using seed_radius_range[OF assms, of 1]
    by (simp_all add: sound_chain_def tangent_chain_single seed_dfs_fields MIN_R_def)
qed (use assms in \<open>simp_all add: sound_chain_push_dfs\<close>)

lemma dfs_best_seed:
  assumes "valid_rng rng"
  shows "generateTouchingCircles_dfs rng \<noteq> [] \<and> hd (generateTouchingCircles_dfs rng) = fst (seed_dfs rng)"
  unfolding generateTouchingCircles_dfs_def
  by (rule best_invariant(1)[where P = "\<lambda>cs. cs \<noteq> [] \<and> hd cs = fst (seed_dfs rng)"])
     (use assms in simp_all)












text \<open>
  Once a chain of \<open>MAX_CIRCLES\<close> circles is kept, nothing replaces it: no chain of the search
  is longer. So the chain returned is the chain of the first descent.
\<close>

lemma cursor_simps [simp]:
  "cursor (count_try s) = cursor s"
  "cursor (record_best s) = cursor s"
  "cursor (advance s) = cursor s + 1"
  "cursor (push next s) = cursor s"
  "cursor (pop next s) = cursor s"
  by (simp_all add: count_try_def record_best_def advance_def push_def pop_def Let_def)






lemma grow_walk_invariant:
  assumes step: "\<And>rng cs pos. valid_rng rng \<Longrightarrow> P cs \<Longrightarrow> cs \<noteq> [] \<Longrightarrow>
                   \<not> overlapsAny_walk cs (next_walk rng cs pos) \<Longrightarrow> P (cs @ [next_walk rng cs pos])"
  shows "valid_rng rng \<Longrightarrow> P cs \<Longrightarrow> cs \<noteq> [] \<Longrightarrow> P (fst (grow_walk rng cs attempts pos))"
proof (induction rng cs attempts pos rule: grow_walk.induct)
  case (1 rng cs attempts pos)
  let ?n = "next_walk rng cs pos"
  consider (stop) "\<not> (attempts + 1 < MAX_ATTEMPTS \<and> length cs < MAX_CIRCLES_walk)"
    | (skip) "attempts + 1 < MAX_ATTEMPTS \<and> length cs < MAX_CIRCLES_walk" "overlapsAny_walk cs ?n"
    | (break) "attempts + 1 < MAX_ATTEMPTS \<and> length cs < MAX_CIRCLES_walk" "\<not> overlapsAny_walk cs ?n"
        "30 \<le> length (cs @ [?n]) \<and> isOutside ?n"
    | (more) "attempts + 1 < MAX_ATTEMPTS \<and> length cs < MAX_CIRCLES_walk" "\<not> overlapsAny_walk cs ?n"
        "\<not> (30 \<le> length (cs @ [?n]) \<and> isOutside ?n)"
    by blast
  then show ?case
  proof cases
    case stop
    then have "grow_walk rng cs attempts pos = (cs, attempts + 1)"
      by (subst grow_walk.simps) (simp only: stop if_True if_False simp_thms)
    then show ?thesis using "1.prems" by simp
  next
    case skip
    then have "grow_walk rng cs attempts pos = grow_walk rng cs (attempts + 1) (pos + 2)"
      by (subst grow_walk.simps) (simp only: skip if_True if_False simp_thms)
    then show ?thesis using "1.IH"(1)[OF skip] "1.prems" by simp
  next
    case break
    then have "grow_walk rng cs attempts pos = (cs @ [?n], attempts + 1)"
      by (subst grow_walk.simps) (simp only: break if_True if_False simp_thms)
    then show ?thesis using step[OF "1.prems" break(2)] by simp
  next
    case more
    then have "grow_walk rng cs attempts pos = grow_walk rng (cs @ [?n]) (attempts + 1) (pos + 2)"
      by (subst grow_walk.simps) (simp only: more if_True if_False simp_thms)
    then show ?thesis
      using "1.IH"(2)[OF more] step[OF "1.prems" more(2)] "1.prems"(1) by simp
  qed
qed

lemma next_walk_touches:
  "0 \<le> radius (last cs) + radius (next_walk rng cs pos) \<Longrightarrow>
   centre_dist (next_walk rng cs pos) (last cs) = radius (next_walk rng cs pos) + radius (last cs)"
proof -
  let ?n = "next_walk rng cs pos"
  assume d: "0 \<le> radius (last cs) + radius ?n"
  define ang where "ang = (if length cs < 30 then safeAngle (last cs) (rng (pos + 1))
                            else random1 TWO_PI (rng (pos + 1)))"
  have n: "?n = \<lparr>x = x (last cs) + cos ang * (radius (last cs) + radius ?n),
                   y = y (last cs) + sin ang * (radius (last cs) + radius ?n),
                   radius = radius ?n, edge = None\<rparr>"
    by (simp add: next_walk_def Let_def ang_def)
  have "centre_dist ?n (last cs) = centre_dist (last cs) ?n"
    by (rule centre_dist_commute)
  also have "\<dots> = \<bar>radius (last cs) + radius ?n\<bar>"
    by (subst n, simp add: centre_dist_def) (rule dist_polar)
  finally show ?thesis using d by simp
qed

lemma next_walk_radius:
  "valid_rng rng \<Longrightarrow> MIN_R \<le> radius (next_walk rng cs pos) \<and> radius (next_walk rng cs pos) < MAX_R"
  using seed_radius_range[of rng pos] by (simp add: next_walk_def Let_def)

lemma sound_chain_push_walk:
  assumes "valid_rng rng" "sound_chain 0 cs" "cs \<noteq> []"
    and "\<not> overlapsAny_walk cs (next_walk rng cs pos)"
  shows "sound_chain 0 (cs @ [next_walk rng cs pos])"
proof -
  let ?n = "next_walk rng cs pos"
  have r: "0 \<le> radius ?n" using next_walk_radius[OF assms(1), of cs pos] by (simp add: MIN_R_def)
  have l: "0 \<le> radius (last cs)" using assms(2,3) by (simp add: sound_chain_def)
  have "tangent_chain 0 (cs @ [?n])"
  proof (rule tangent_chain_snoc)
    show "tangent_chain 0 cs" using assms(2) by (simp add: sound_chain_def)
    show "cs \<noteq> []" by fact
    show "(0::real) \<le> 0" by simp
    show "centre_dist ?n (last cs) = radius ?n + radius (last cs)"
      using r l by (intro next_walk_touches) simp
    show "\<forall>c \<in> set cs. \<not> centre_dist c ?n < radius c + radius ?n - 0"
      using assms(4) by (simp add: overlapsAny_walk_def centre_dist_def)
  qed
  then show ?thesis using assms(2) r by (simp add: sound_chain_def)
qed

lemma seed_walk_fields:
  "radius (fst (seed_walk rng)) = random2 MIN_R MAX_R (rng 1)"
  "edge (fst (seed_walk rng)) = Some \<lfloor>random1 4 (rng 0)\<rfloor>"
  by (simp_all add: seed_walk_def Let_def split_def)

lemma walk_sound:
  assumes "valid_rng rng"
  shows "sound_chain 0 (generateTouchingCircles_walk rng)"
  unfolding generateTouchingCircles_walk_def walk_run_def
proof (rule grow_walk_invariant[where P = "sound_chain 0"])
  show "sound_chain 0 [fst (seed_walk rng)]"
    using seed_radius_range[OF assms, of 1]
    by (simp add: sound_chain_def tangent_chain_single seed_walk_fields MIN_R_def)
qed (use assms in \<open>simp_all add: sound_chain_push_walk\<close>)

lemma walk_seed:
  assumes "valid_rng rng"
  shows "generateTouchingCircles_walk rng \<noteq> [] \<and> hd (generateTouchingCircles_walk rng) = fst (seed_walk rng)"
  unfolding generateTouchingCircles_walk_def walk_run_def
  by (rule grow_walk_invariant[where P = "\<lambda>cs. cs \<noteq> [] \<and> hd cs = fst (seed_walk rng)"])
     (use assms in simp_all)

text \<open>
  How the greedy walk can end with attempts to spare: by its \<open>break\<close>, with at least 30
  circles and the last one outside the canvas, or at the cap of \<open>MAX_CIRCLES = 150\<close> circles.
\<close>

lemma grow_walk_exit:
  "grow_walk rng cs attempts pos = (cs', n) \<Longrightarrow> n < MAX_ATTEMPTS \<Longrightarrow>
     MAX_CIRCLES_walk \<le> length cs' \<or> (30 \<le> length cs' \<and> isOutside (last cs'))"
proof (induction rng cs attempts pos rule: grow_walk.induct)
  case (1 rng cs attempts pos)
  let ?n = "next_walk rng cs pos"
  consider (stop) "\<not> (attempts + 1 < MAX_ATTEMPTS \<and> length cs < MAX_CIRCLES_walk)"
    | (skip) "attempts + 1 < MAX_ATTEMPTS \<and> length cs < MAX_CIRCLES_walk" "overlapsAny_walk cs ?n"
    | (break) "attempts + 1 < MAX_ATTEMPTS \<and> length cs < MAX_CIRCLES_walk" "\<not> overlapsAny_walk cs ?n"
        "30 \<le> length (cs @ [?n]) \<and> isOutside ?n"
    | (more) "attempts + 1 < MAX_ATTEMPTS \<and> length cs < MAX_CIRCLES_walk" "\<not> overlapsAny_walk cs ?n"
        "\<not> (30 \<le> length (cs @ [?n]) \<and> isOutside ?n)"
    by blast
  then show ?case
  proof cases
    case stop
    then have "grow_walk rng cs attempts pos = (cs, attempts + 1)"
      by (subst grow_walk.simps) (simp only: stop if_True if_False simp_thms)
    with "1.prems" stop show ?thesis by auto
  next
    case skip
    then have "grow_walk rng cs attempts pos = grow_walk rng cs (attempts + 1) (pos + 2)"
      by (subst grow_walk.simps) (simp only: skip if_True if_False simp_thms)
    with "1.IH"(1)[OF skip] "1.prems" show ?thesis by simp
  next
    case break
    then have "grow_walk rng cs attempts pos = (cs @ [?n], attempts + 1)"
      by (subst grow_walk.simps) (simp only: break if_True if_False simp_thms)
    with "1.prems" break show ?thesis by auto
  next
    case more
    then have "grow_walk rng cs attempts pos = grow_walk rng (cs @ [?n]) (attempts + 1) (pos + 2)"
      by (subst grow_walk.simps) (simp only: more if_True if_False simp_thms)
    with "1.IH"(2)[OF more] "1.prems" show ?thesis by simp
  qed
qed

subsection \<open>What the generators return\<close>

lemma walk_ends_early:
  assumes "snd (walk_run rng) < MAX_ATTEMPTS"
  shows "30 \<le> length (generateTouchingCircles_walk rng)
         \<and> (length (generateTouchingCircles_walk rng) < MAX_CIRCLES_walk
              \<longrightarrow> isOutside (last (generateTouchingCircles_walk rng)))"
proof -
  obtain cs n where run: "walk_run rng = (cs, n)" by (cases "walk_run rng")
  then have "grow_walk rng [fst (seed_walk rng)] 0 (snd (seed_walk rng)) = (cs, n)"
    by (simp add: walk_run_def)
  moreover have "n < MAX_ATTEMPTS" using assms run by simp
  ultimately have "MAX_CIRCLES_walk \<le> length cs \<or> (30 \<le> length cs \<and> isOutside (last cs))"
    by (rule grow_walk_exit)
  then show ?thesis
    using run by (auto simp: generateTouchingCircles_walk_def MAX_CIRCLES_walk_def)
qed

lemma valid_rng_zero: "valid_rng rng_zero"
  by (simp add: valid_rng_def rng_zero_def)

text \<open>
  Over exact real arithmetic the chains of both generators are tangent chains: the greedy
  walk tests overlap without tolerance, the back-tracking search with the tolerance \<open>0.1\<close>.
\<close>

lemma exact_chains_tangent:
  assumes "valid_rng rng"
  shows "tangent_chain 0 (generateTouchingCircles_walk rng)
         \<and> tangent_chain (1 / 10) (generateTouchingCircles_dfs rng)"
  using walk_sound[OF assms] dfs_best_sound[OF assms] by (simp add: sound_chain_def)














subsection \<open>The generators in rounded arithmetic\<close>

text \<open>Without rounding the definitions with the suffix \<open>_fl\<close> are the exact ones.\<close>

lemma fit_fl_exact: "fitRibbonToViewport_fl (\<lambda>v. v) cs = fitRibbonToViewport cs"
proof -
  have g: "grow_box_fl (\<lambda>v. v) = grow_box"
    by (intro ext) (simp add: grow_box_fl_def grow_box_def)
  have b: "bounding_box_fl (\<lambda>v. v) cs = bounding_box cs"
    by (simp add: bounding_box_fl_def bounding_box_def g)
  have s: "fit_scale_fl (\<lambda>v. v) = fit_scale"
    by (intro ext) (simp add: fit_scale_fl_def fit_scale_def)
  show ?thesis
    by (cases "bounding_box cs")
       (auto simp: fitRibbonToViewport_fl_def fitRibbonToViewport_def b s Let_def)
qed


lemma exact_simps [simp]:
  "round_m exact_machine v = v"
  "cos_m exact_machine = cos" "sin_m exact_machine = sin"
  "random1_fl exact_machine hi u = random1 hi u"
  "random2_fl exact_machine lo hi u = random2 lo hi u"
  "dist_fl exact_machine x1 y1 x2 y2 = dist_p5 x1 y1 x2 y2"
  "PI_fl exact_machine = PI" "HALF_PI_fl exact_machine = HALF_PI"
  "TWO_PI_fl exact_machine = TWO_PI" "ANGLE_STEP_fl exact_machine = ANGLE_STEP"
  by (simp_all add: exact_machine_def random1_fl_def random1_def random2_fl_def random2_def
        dist_fl_def dist_p5_def PI_fl_def PI_def HALF_PI_fl_def HALF_PI_def TWO_PI_fl_def
        TWO_PI_def ANGLE_STEP_fl_def ANGLE_STEP_def)

lemma exact_geometry [simp]:
  "overlapsAny_walk_fl exact_machine cs nc = overlapsAny_walk cs nc"
  "isOutside_fl exact_machine c = isOutside c"
  "fullyOutside_fl exact_machine c = fullyOutside c"
  "overlapsAny_dfs_fl exact_machine cs nc = overlapsAny_dfs cs nc"
  "candidate_fl exact_machine lst ang newR = candidate lst ang newR"
  "draw_radius_fl exact_machine rng s = draw_radius rng s"
  by (simp_all add: overlapsAny_walk_fl_def overlapsAny_walk_def isOutside_fl_def isOutside_def
        fullyOutside_fl_def fullyOutside_def overlapsAny_dfs_fl_def overlapsAny_dfs_def
        candidate_fl_def candidate_def draw_radius_fl_def draw_radius_def)

lemma exact_walk_simps [simp]:
  "seed_walk_fl exact_machine rng = seed_walk rng"
  "safeAngle_fl exact_machine c u = safeAngle c u"
  by (simp_all add: seed_walk_fl_def seed_walk_def safeAngle_fl_def safeAngle_def Let_def split_def)

lemma exact_next_walk [simp]: "next_walk_fl exact_machine rng cs pos = next_walk rng cs pos"
  by (simp add: next_walk_fl_def next_walk_def Let_def)

lemma exact_grow_walk:
  "m = exact_machine \<Longrightarrow> grow_walk_fl m rng cs attempts pos = grow_walk rng cs attempts pos"
proof (induction m rng cs attempts pos rule: grow_walk_fl.induct)
  case (1 m rng cs attempts pos)
  show ?case
    using "1.IH" "1.prems"
    by (subst grow_walk_fl.simps, subst grow_walk.simps) simp
qed

lemma exact_walk:
  "generateTouchingCircles_walk_fl exact_machine rng = generateTouchingCircles_walk rng"
  by (simp add: generateTouchingCircles_walk_fl_def generateTouchingCircles_walk_def walk_run_def
        exact_grow_walk)


lemma exact_push_pop [simp]:
  "push_fl exact_machine c s = push c s"
  "pop_fl exact_machine c s = pop c s"
  by (simp_all add: push_fl_def push_def pop_fl_def pop_def)

lemma loop_angles_exact:
  "loop_angles exact_machine = map (\<lambda>k. real k * ANGLE_STEP) [0 ..< 64]"
proof -
  have it: "((\<lambda>ang. ang + ANGLE_STEP) ^^ k) 0 = real k * ANGLE_STEP" for k
    by (induction k) (simp_all add: algebra_simps)
  have lt: "real k * ANGLE_STEP < TWO_PI \<longleftrightarrow> k < 64" for k
  proof -
    have "0 < pi / 32" using pi_gt_zero by simp
    then have "real k * (pi / 32) < 64 * (pi / 32) \<longleftrightarrow> real k < 64"
      by (rule mult_less_cancel_right_pos)
    moreover have "ANGLE_STEP = pi / 32" "TWO_PI = 64 * (pi / 32)"
      by (simp_all add: ANGLE_STEP_def TWO_PI_def)
    ultimately have "real k * ANGLE_STEP < TWO_PI \<longleftrightarrow> real k < 64"
      by (simp only:)
    then show ?thesis by simp
  qed
  have split: "[0 ..< 99] = [0 ..< 64] @ 64 # [65 ..< 99]"
    by (simp add: upt_rec[of 64] upt_add_eq_append[of 0 64 35, simplified])
  have "loop_angles exact_machine
      = takeWhile (\<lambda>ang. ang < TWO_PI) (map (\<lambda>k. real k * ANGLE_STEP) [0 ..< 99])"
    by (simp add: loop_angles_def it)
  also have "\<dots> = map (\<lambda>k. real k * ANGLE_STEP) [0 ..< 64]
                  @ takeWhile (\<lambda>ang. ang < TWO_PI) (map (\<lambda>k. real k * ANGLE_STEP) (64 # [65 ..< 99]))"
    unfolding split map_append by (rule takeWhile_append2) (auto simp: lt)
  also have "takeWhile (\<lambda>ang. ang < TWO_PI) (map (\<lambda>k. real k * ANGLE_STEP) (64 # [65 ..< 99])) = []"
    using lt[of 64] by simp
  finally show ?thesis by simp
qed

lemma exact_dfs:
  "m = exact_machine \<Longrightarrow> dfs_fl m rng s = dfs rng s"
  "m = exact_machine \<Longrightarrow> angs = map (\<lambda>j. real j * ANGLE_STEP) [k ..< 64] \<Longrightarrow> k \<le> 64
     \<Longrightarrow> fan_fl m rng lst angs s = fan rng lst (real k * ANGLE_STEP) s"
proof (induction m rng s and m rng lst angs s arbitrary: and k rule: dfs_fl_fan_fl.induct)
  case (1 m rng s)
  let ?t = "record_best (count_try s)"
  have "fan_fl m rng (last (circles ?t)) (loop_angles m) ?t
          = fan rng (last (circles ?t)) (real 0 * ANGLE_STEP) ?t"
    if "\<not> MAX_TOTAL_TRIES < totalTries (count_try s)" "\<not> MAX_CIRCLES_dfs \<le> length (circles ?t)"
    using that "1.prems" by (intro "1.IH") (simp_all add: loop_angles_exact)
  then show ?case
    by (subst dfs_fl.simps, subst dfs.simps) simp
next
  case (2 m rng lst s)
  then have "k = 64" by simp
  then have "\<not> real k * ANGLE_STEP < TWO_PI" by (simp add: ANGLE_STEP_def)
  then show ?case by (subst fan.simps) (simp add: fan_fl.simps)
next
  case (3 m rng lst ang angs s)
  from "3.prems"(2,3) have k: "k < 64"
    by (cases "k = 64") simp_all
  then have up: "[k ..< 64] = k # [Suc k ..< 64]" by (rule upt_conv_Cons)
  with "3.prems"(2) have ang: "ang = real k * ANGLE_STEP"
    and angs: "angs = map (\<lambda>j. real j * ANGLE_STEP) [Suc k ..< 64]"
    by simp_all
  have nxt: "real (Suc k) * ANGLE_STEP = ang + ANGLE_STEP"
    by (simp add: ang algebra_simps)
  have lt: "ang < TWO_PI"
  proof -
    have "real k * (pi / 32) < 64 * (pi / 32)"
      using k pi_gt_zero by (intro mult_strict_right_mono) simp_all
    then show ?thesis by (simp add: ang ANGLE_STEP_def TWO_PI_def)
  qed
  let ?c = "candidate lst ang (draw_radius rng s)"
  note m = "3.prems"(1)
  have c: "candidate_fl m lst ang (draw_radius_fl m rng s) = ?c" by (simp add: m)
  show ?case
  proof (cases "overlapsAny_dfs (circles (advance s)) ?c")
    case True
    then have o: "overlapsAny_dfs_fl m (circles (advance s))
                    (candidate_fl m lst ang (draw_radius_fl m rng s))"
      by (simp add: m)
    have "fan_fl m rng lst angs (advance s) = fan rng lst (real (Suc k) * ANGLE_STEP) (advance s)"
      using o m angs k by (intro "3.IH"(1)) simp_all
    then show ?thesis
      using True o lt unfolding nxt ang[symmetric]
      by (subst fan_fl.simps, subst fan.simps) simp
  next
    case False
    then have o: "\<not> overlapsAny_dfs_fl m (circles (advance s))
                    (candidate_fl m lst ang (draw_radius_fl m rng s))"
      by (simp add: m)
    have d: "dfs_fl m rng (push_fl m (candidate_fl m lst ang (draw_radius_fl m rng s)) (advance s))
               = dfs rng (push ?c (advance s))"
      using "3.IH"(2)[OF o m] by (simp add: m)
    then have d': "dfs_fl exact_machine rng (push ?c (advance s)) = dfs rng (push ?c (advance s))"
      by (simp add: m)
    have "fan_fl m rng lst angs
            (pop_fl m (candidate_fl m lst ang (draw_radius_fl m rng s))
               (dfs_fl m rng (push_fl m (candidate_fl m lst ang (draw_radius_fl m rng s))
                                (advance s))))
          = fan rng lst (real (Suc k) * ANGLE_STEP)
              (pop_fl m (candidate_fl m lst ang (draw_radius_fl m rng s))
                 (dfs_fl m rng (push_fl m (candidate_fl m lst ang (draw_radius_fl m rng s))
                                  (advance s))))"
      using o m angs k by (intro "3.IH"(3)) simp_all
    then have "fan_fl m rng lst angs
            (pop_fl m (candidate_fl m lst ang (draw_radius_fl m rng s))
               (dfs_fl m rng (push_fl m (candidate_fl m lst ang (draw_radius_fl m rng s))
                                (advance s))))
          = fan rng lst (ang + ANGLE_STEP) (pop ?c (dfs rng (push ?c (advance s))))"
      unfolding nxt by (simp add: m d')
    then show ?thesis
      using False o lt unfolding ang[symmetric]
      by (subst fan_fl.simps, subst fan.simps) simp
  qed
qed

lemma exact_search:
  "generateTouchingCircles_dfs_fl exact_machine rng = generateTouchingCircles_dfs rng"
proof -
  have "seed_dfs_fl exact_machine rng = seed_dfs rng"
    by (simp add: seed_dfs_fl_def seed_dfs_def Let_def split_def)
  then have "search_start_fl exact_machine rng = search_start rng"
    by (simp add: search_start_fl_def search_start_def)
  then show ?thesis
    by (simp add: generateTouchingCircles_dfs_fl_def generateTouchingCircles_dfs_def exact_dfs)
qed

text \<open>How far rounding moves a placed circle, and what the computed overlap test says
  about the true distance.\<close>

lemma big_le2: "(4000000::real) \<le> 2 ^ 500"
proof -
  have "(4000000::real) \<le> 2 ^ 53" by simp
  also have "\<dots> \<le> 2 ^ 500" by (rule power_increasing) simp_all
  finally show ?thesis .
qed

lemma norm_shift:
  fixes a b c d :: real
  shows "\<bar>sqrt ((a + c)\<^sup>2 + (b + d)\<^sup>2) - sqrt (a\<^sup>2 + b\<^sup>2)\<bar> \<le> \<bar>c\<bar> + \<bar>d\<bar>"
proof -
  have up: "sqrt ((a + c)\<^sup>2 + (b + d)\<^sup>2) \<le> sqrt (a\<^sup>2 + b\<^sup>2) + sqrt (c\<^sup>2 + d\<^sup>2)"
    by (rule real_sqrt_sum_squares_triangle_ineq)
  have "sqrt (((a + c) + (- c))\<^sup>2 + ((b + d) + (- d))\<^sup>2)
          \<le> sqrt ((a + c)\<^sup>2 + (b + d)\<^sup>2) + sqrt ((- c)\<^sup>2 + (- d)\<^sup>2)"
    by (rule real_sqrt_sum_squares_triangle_ineq)
  then have down: "sqrt (a\<^sup>2 + b\<^sup>2) \<le> sqrt ((a + c)\<^sup>2 + (b + d)\<^sup>2) + sqrt (c\<^sup>2 + d\<^sup>2)"
    by simp
  have "sqrt (c\<^sup>2 + d\<^sup>2) \<le> \<bar>c\<bar> + \<bar>d\<bar>"
    by (rule sqrt_sum_squares_le_sum_abs)
  with up down show ?thesis by linarith
qed

lemma polar_norm: "sqrt ((cos a * R)\<^sup>2 + (sin a * R)\<^sup>2) = \<bar>R\<bar>"
proof -
  have "(cos a * R)\<^sup>2 + (sin a * R)\<^sup>2 = ((cos a)\<^sup>2 + (sin a)\<^sup>2) * R\<^sup>2"
    by (simp only: power_mult_distrib distrib_right)
  also have "\<dots> = R\<^sup>2" by simp
  finally show ?thesis by simp
qed

lemma place_axis:
  assumes rnd: "rounds rnd"
    and C: "\<bar>C - c\<bar> \<le> 1 / 2 ^ 50" and c: "\<bar>c\<bar> \<le> 1"
    and R: "0 \<le> R" "R \<le> 402"
    and x0: "\<bar>x0\<bar> \<le> 3000000"
  shows "\<bar>rnd (x0 + rnd (C * rnd R)) - x0 - c * R\<bar> \<le> 1 / 500000000"
proof -
  define e :: real where "e = 1 / 2000000000"
  have e: "0 < e" "e \<le> 1 / 2000000000" "1 / 2000000000 \<le> e" by (simp_all add: e_def)
  have near: "\<bar>rnd v - v\<bar> \<le> e" if "\<bar>v\<bar> \<le> 4000000" for v
    using rounds_near[OF rnd that] by (simp add: e_def)
  define t :: real where "t = 1 / 2 ^ 50"
  have t: "0 < t" "t \<le> 1 / 1000000000000000" by (simp_all add: t_def)
  define d where "d = rnd R"
  have d: "\<bar>d - R\<bar> \<le> e" unfolding d_def using R by (intro near) linarith
  have dabs: "\<bar>d\<bar> \<le> 403" using d R e by linarith
  have Ct: "\<bar>C - c\<bar> \<le> t" using C by (simp add: t_def)
  have "\<bar>(C - c) * d\<bar> \<le> t * 403"
    unfolding abs_mult using Ct dabs t by (intro mult_mono) simp_all
  moreover have "\<bar>c * (d - R)\<bar> \<le> 1 * e"
    unfolding abs_mult using c d by (intro mult_mono) simp_all
  moreover have "C * d - c * R = (C - c) * d + c * (d - R)"
    by (simp add: algebra_simps)
  ultimately have prod: "\<bar>C * d - c * R\<bar> \<le> t * 403 + e"
    by linarith
  have "\<bar>c * R\<bar> \<le> 1 * 402"
    unfolding abs_mult using c R by (intro mult_mono) simp_all
  then have cR: "\<bar>c * R\<bar> \<le> 402" by simp
  have "\<bar>C * d\<bar> \<le> 4000000" using prod cR t e by linarith
  then have p1: "\<bar>rnd (C * d) - C * d\<bar> \<le> e" by (rule near)
  have "\<bar>x0 + rnd (C * d)\<bar> \<le> 4000000" using p1 prod cR t e x0 by linarith
  then have "\<bar>rnd (x0 + rnd (C * d)) - (x0 + rnd (C * d))\<bar> \<le> e" by (rule near)
  then have "\<bar>rnd (x0 + rnd (C * d)) - x0 - c * R\<bar> \<le> 3 * e + t * 403"
    using p1 prod by linarith
  then show ?thesis
    using e t unfolding d_def by linarith
qed

lemma place_near:
  assumes rnd: "rounds rnd"
    and C: "\<bar>C - cos a\<bar> \<le> 1 / 2 ^ 50" and Sn: "\<bar>Sn - sin a\<bar> \<le> 1 / 2 ^ 50"
    and r: "0 \<le> r1" "r1 \<le> 201" "0 \<le> r2" "r2 \<le> 201"
    and x0: "\<bar>x0\<bar> \<le> 3000000" and y0: "\<bar>y0\<bar> \<le> 3000000"
    and nx: "nx = rnd (x0 + rnd (C * rnd (r1 + r2)))"
    and ny: "ny = rnd (y0 + rnd (Sn * rnd (r1 + r2)))"
  shows "\<bar>sqrt ((nx - x0)\<^sup>2 + (ny - y0)\<^sup>2) - (r1 + r2)\<bar> \<le> 1 / 200000000"
    and "\<bar>nx - x0\<bar> \<le> 403" and "\<bar>ny - y0\<bar> \<le> 403"
proof -
  define R where "R = r1 + r2"
  have R: "0 \<le> R" "R \<le> 402" using r by (simp_all add: R_def)
  define ex where "ex = nx - x0 - cos a * R"
  define ey where "ey = ny - y0 - sin a * R"
  have ex: "\<bar>ex\<bar> \<le> 1 / 500000000"
    unfolding ex_def nx R_def[symmetric] using rnd C _ R x0 by (rule place_axis) simp
  have ey: "\<bar>ey\<bar> \<le> 1 / 500000000"
    unfolding ey_def ny R_def[symmetric] using rnd Sn _ R y0 by (rule place_axis) simp
  have "\<bar>sqrt ((cos a * R + ex)\<^sup>2 + (sin a * R + ey)\<^sup>2) - sqrt ((cos a * R)\<^sup>2 + (sin a * R)\<^sup>2)\<bar>
          \<le> \<bar>ex\<bar> + \<bar>ey\<bar>"
    by (rule norm_shift)
  moreover have "cos a * R + ex = nx - x0" "sin a * R + ey = ny - y0"
    by (simp_all add: ex_def ey_def)
  ultimately have "\<bar>sqrt ((nx - x0)\<^sup>2 + (ny - y0)\<^sup>2) - \<bar>R\<bar>\<bar> \<le> \<bar>ex\<bar> + \<bar>ey\<bar>"
    by (simp add: polar_norm)
  then show "\<bar>sqrt ((nx - x0)\<^sup>2 + (ny - y0)\<^sup>2) - (r1 + r2)\<bar> \<le> 1 / 200000000"
    using ex ey R unfolding R_def by linarith
  have "\<bar>cos a * R\<bar> \<le> 1 * 402" "\<bar>sin a * R\<bar> \<le> 1 * 402"
    unfolding abs_mult using R by (intro mult_mono; simp)+
  then show "\<bar>nx - x0\<bar> \<le> 403" "\<bar>ny - y0\<bar> \<le> 403"
    using ex ey unfolding ex_def ey_def by linarith+
qed

lemma test_far:
  assumes rnd: "rounds rnd"
    and hyp: "\<forall>u v. \<bar>u\<bar> \<le> 2 ^ 500 \<and> \<bar>v\<bar> \<le> 2 ^ 500
                \<longrightarrow> \<bar>hyp u v - sqrt (u\<^sup>2 + v\<^sup>2)\<bar> \<le> sqrt (u\<^sup>2 + v\<^sup>2) / 2 ^ 50"
    and xy: "\<bar>x1\<bar> \<le> 200000" "\<bar>y1\<bar> \<le> 200000" "\<bar>x2\<bar> \<le> 200000" "\<bar>y2\<bar> \<le> 200000"
    and far: "\<not> hyp (rnd (x2 - x1)) (rnd (y2 - y1)) < thr"
  shows "thr - 1 / 500000000 \<le> sqrt ((x2 - x1)\<^sup>2 + (y2 - y1)\<^sup>2)"
proof -
  define e :: real where "e = 1 / 2000000000"
  have e: "0 < e" "e \<le> 1 / 2000000000" "1 / 2000000000 \<le> e" by (simp_all add: e_def)
  have near: "\<bar>rnd v - v\<bar> \<le> e" if "\<bar>v\<bar> \<le> 4000000" for v
    using rounds_near[OF rnd that] by (simp add: e_def)
  define dx where "dx = x2 - x1"
  define dy where "dy = y2 - y1"
  define gx where "gx = rnd dx - dx"
  define gy where "gy = rnd dy - dy"
  have dxy: "\<bar>dx\<bar> \<le> 400000" "\<bar>dy\<bar> \<le> 400000" using xy by (simp_all add: dx_def dy_def)
  have g: "\<bar>gx\<bar> \<le> e" "\<bar>gy\<bar> \<le> e"
    unfolding gx_def gy_def using dxy by (intro near, linarith)+
  define N where "N = sqrt (dx\<^sup>2 + dy\<^sup>2)"
  define N' where "N' = sqrt ((rnd dx)\<^sup>2 + (rnd dy)\<^sup>2)"
  have "\<bar>sqrt ((dx + gx)\<^sup>2 + (dy + gy)\<^sup>2) - sqrt (dx\<^sup>2 + dy\<^sup>2)\<bar> \<le> \<bar>gx\<bar> + \<bar>gy\<bar>"
    by (rule norm_shift)
  then have NN: "\<bar>N' - N\<bar> \<le> 2 * e"
    using g by (simp add: N_def N'_def gx_def gy_def)
  have "N \<le> \<bar>dx\<bar> + \<bar>dy\<bar>" unfolding N_def by (rule sqrt_sum_squares_le_sum_abs)
  then have Nb: "N \<le> 800000" using dxy by linarith
  have N0: "0 \<le> N'" by (simp add: N'_def)
  have N'b: "N' \<le> 800001" using NN Nb e by linarith
  have "\<bar>rnd dx\<bar> \<le> 4000000" "\<bar>rnd dy\<bar> \<le> 4000000"
    using g dxy e unfolding gx_def gy_def by linarith+
  then have "\<bar>rnd dx\<bar> \<le> 2 ^ 500 \<and> \<bar>rnd dy\<bar> \<le> 2 ^ 500"
    using big_le2 by linarith
  with hyp have "\<bar>hyp (rnd dx) (rnd dy) - N'\<bar> \<le> N' / 2 ^ 50"
    unfolding N'_def by blast
  moreover have "N' / 2 ^ 50 \<le> 800001 / 2 ^ 50"
    using N'b by (simp add: divide_right_mono)
  moreover have "(800001::real) / 2 ^ 50 \<le> 1 / 1000000000" by simp
  ultimately have "hyp (rnd dx) (rnd dy) \<le> N' + 1 / 1000000000" by linarith
  moreover have "thr \<le> hyp (rnd dx) (rnd dy)"
    using far by (simp add: dx_def dy_def)
  ultimately have "thr - 1 / 500000000 \<le> N"
    using NN e by linarith
  then show ?thesis by (simp add: N_def dx_def dy_def)
qed


lemma tangent_chain_snoc_near:
  assumes ok: "tangent_chain eps cs" and ne: "cs \<noteq> []"
    and touch: "\<bar>centre_dist nc (last cs) - (radius nc + radius (last cs))\<bar> \<le> eps"
    and clear: "\<forall>c \<in> set cs. radius c + radius nc - eps \<le> centre_dist c nc"
  shows "tangent_chain eps (cs @ [nc])"
  unfolding tangent_chain_def
proof (intro conjI ballI)
  fix i assume "i \<in> {1 ..< length (cs @ [nc])}"
  then have i: "1 \<le> i" "i \<le> length cs" by auto
  show "\<bar>centre_dist ((cs @ [nc]) ! i) ((cs @ [nc]) ! (i - 1))
          - (radius ((cs @ [nc]) ! i) + radius ((cs @ [nc]) ! (i - 1)))\<bar> \<le> eps"
  proof (cases "i = length cs")
    case True
    then have "(cs @ [nc]) ! i = nc" "(cs @ [nc]) ! (i - 1) = last cs"
      using ne i by (simp_all add: nth_append last_conv_nth)
    then show ?thesis using touch by simp
  next
    case False
    then have "i < length cs" using i by simp
    then have "(cs @ [nc]) ! i = cs ! i" "(cs @ [nc]) ! (i - 1) = cs ! (i - 1)"
      by (simp_all add: nth_append)
    moreover have "i \<in> {1 ..< length cs}" using i \<open>i < length cs\<close> by simp
    ultimately show ?thesis using ok unfolding tangent_chain_def by simp
  qed
next
  fix i j assume "i \<in> {0 ..< length (cs @ [nc])}" and "j \<in> {0 ..< i - 1}"
  then have i: "i \<le> length cs" and j: "j < i - 1" by auto
  show "radius ((cs @ [nc]) ! i) + radius ((cs @ [nc]) ! j) - eps
          \<le> centre_dist ((cs @ [nc]) ! i) ((cs @ [nc]) ! j)"
  proof (cases "i = length cs")
    case True
    then have "(cs @ [nc]) ! i = nc" "(cs @ [nc]) ! j = cs ! j" "cs ! j \<in> set cs"
      using j by (simp_all add: nth_append)
    then show ?thesis
      using clear centre_dist_commute[of nc "cs ! j"] by (auto simp: add.commute)
  next
    case False
    then have "i < length cs" using i by simp
    then have "(cs @ [nc]) ! i = cs ! i" "(cs @ [nc]) ! j = cs ! j"
      using j by (simp_all add: nth_append)
    moreover have "i \<in> {0 ..< length cs}" "j \<in> {0 ..< i - 1}"
      using \<open>i < length cs\<close> j by simp_all
    ultimately show ?thesis using ok unfolding tangent_chain_def by simp
  qed
qed

lemma touching_snoc:
  assumes ok: "touching eps cs" and ne: "cs \<noteq> []"
    and touch: "\<bar>centre_dist nc (last cs) - (radius nc + radius (last cs))\<bar> \<le> eps"
  shows "touching eps (cs @ [nc])"
  unfolding touching_def
proof
  fix i assume "i \<in> {1 ..< length (cs @ [nc])}"
  then have i: "1 \<le> i" "i \<le> length cs" by auto
  show "\<bar>centre_dist ((cs @ [nc]) ! i) ((cs @ [nc]) ! (i - 1))
          - (radius ((cs @ [nc]) ! i) + radius ((cs @ [nc]) ! (i - 1)))\<bar> \<le> eps"
  proof (cases "i = length cs")
    case True
    then have "(cs @ [nc]) ! i = nc" "(cs @ [nc]) ! (i - 1) = last cs"
      using ne i by (simp_all add: nth_append last_conv_nth)
    then show ?thesis using touch by simp
  next
    case False
    then have "i < length cs" using i by simp
    then have "(cs @ [nc]) ! i = cs ! i" "(cs @ [nc]) ! (i - 1) = cs ! (i - 1)"
      by (simp_all add: nth_append)
    moreover have "i \<in> {1 ..< length cs}" using i \<open>i < length cs\<close> by simp
    ultimately show ?thesis using ok unfolding touching_def by simp
  qed
qed

lemma ieee_near:
  assumes "ieee m" "\<bar>v\<bar> \<le> 4000000"
  shows "\<bar>round_m m v - v\<bar> \<le> 1 / 2000000000"
  using assms by (intro rounds_near) (simp_all add: ieee_def)

lemma random2_fl_range:
  assumes m: "ieee m" and lo: "\<bar>lo\<bar> \<le> 2000" and hi: "\<bar>hi\<bar> \<le> 2000" and u: "0 \<le> u" "u < 1"
  shows "min lo hi - 1 / 500000000 \<le> random2_fl m lo hi u
         \<and> random2_fl m lo hi u \<le> max lo hi + 1 / 500000000"
proof -
  have core: "a - 1 / 500000000 \<le> round_m m (round_m m (u * round_m m (b - a)) + a)
              \<and> round_m m (round_m m (u * round_m m (b - a)) + a) \<le> b + 1 / 500000000"
    if ab: "a \<le> b" "\<bar>a\<bar> \<le> 2000" "\<bar>b\<bar> \<le> 2000" for a b
  proof -
    define w where "w = round_m m (b - a)"
    have w: "\<bar>w - (b - a)\<bar> \<le> 1 / 2000000000"
      unfolding w_def using ab by (intro ieee_near[OF m]) linarith
    have uw: "- (1 / 2000000000) \<le> u * w" "u * w \<le> b - a + 1 / 2000000000"
    proof -
      show "- (1 / 2000000000) \<le> u * w"
      proof (cases "0 \<le> w")
        case True
        then have "0 \<le> u * w" using u by simp
        then show ?thesis by linarith
      next
        case False
        then have "w * 1 \<le> w * u" using u by (intro mult_left_mono_neg) simp_all
        then have "w \<le> u * w" by (simp add: mult.commute)
        then show ?thesis using w ab(1) by linarith
      qed
      show "u * w \<le> b - a + 1 / 2000000000"
      proof (cases "0 \<le> w")
        case True
        then have "u * w \<le> 1 * w" using u by (intro mult_right_mono) simp_all
        then show ?thesis using w by linarith
      next
        case False
        then have "u * w \<le> 0" using u by (simp add: mult_le_0_iff)
        then show ?thesis using ab(1) by linarith
      qed
    qed
    define t where "t = round_m m (u * w)"
    have "\<bar>u * w\<bar> \<le> 4000000" using uw ab by linarith
    then have t: "\<bar>t - u * w\<bar> \<le> 1 / 2000000000"
      unfolding t_def by (rule ieee_near[OF m])
    have tr: "- (1 / 1000000000) \<le> t" "t \<le> b - a + 1 / 1000000000"
      using t uw by linarith+
    then have "\<bar>t + a\<bar> \<le> 4000000" using ab by linarith
    then have "\<bar>round_m m (t + a) - (t + a)\<bar> \<le> 1 / 2000000000"
      by (rule ieee_near[OF m])
    then show ?thesis
      using tr unfolding t_def w_def by linarith
  qed
  show ?thesis
  proof (cases "lo > hi")
    case True
    then show ?thesis
      using core[of hi lo] lo hi by (simp add: random2_fl_def min_def max_def)
  next
    case False
    then show ?thesis
      using core[of lo hi] lo hi by (simp add: random2_fl_def min_def max_def)
  qed
qed

lemma radius_fl_range:
  assumes "ieee m" "0 \<le> u" "u < 1"
  shows "49 \<le> random2_fl m MIN_R MAX_R u \<and> random2_fl m MIN_R MAX_R u \<le> 201"
  using random2_fl_range[OF assms(1) _ _ assms(2,3), of MIN_R MAX_R]
  by (simp add: MIN_R_def MAX_R_def)


lemma placed_single:
  assumes "0 \<le> eps" "49 \<le> radius c" "radius c \<le> 201" "\<bar>x c\<bar> \<le> 1100" "\<bar>y c\<bar> \<le> 1100"
  shows "placed eps [c]"
  using assms by (simp add: placed_def tangent_chain_single touching_def)

lemma placed_push:
  assumes m: "ieee m" and ok: "placed eps cs" and ne: "cs \<noteq> []" and len: "length cs < 300"
    and eps: "1 / 200000000 \<le> eps"
    and r: "49 \<le> newR" "newR \<le> 201"
    and nc: "nc = \<lparr>x = round_m m (x (last cs)
                          + round_m m (cos_m m ang * round_m m (radius (last cs) + newR))),
                     y = round_m m (y (last cs)
                          + round_m m (sin_m m ang * round_m m (radius (last cs) + newR))),
                     radius = newR, edge = None\<rparr>"
    and clear: "\<forall>c \<in> set cs. thr c - 1 / 500000000 \<le> centre_dist c nc
                  \<longrightarrow> radius c + radius nc - eps \<le> centre_dist c nc"
    and far: "\<forall>c \<in> set cs. \<not> dist_fl m (x c) (y c) (x nc) (y nc) < thr c"
  shows "placed eps (cs @ [nc])"
proof -
  let ?l = "last cs"
  have rnd: "rounds (round_m m)" using m by (simp add: ieee_def)
  have cs_ok: "49 \<le> radius c \<and> radius c \<le> 201
               \<and> \<bar>x c\<bar> \<le> 1100 + 403 * real (length cs) \<and> \<bar>y c\<bar> \<le> 1100 + 403 * real (length cs)"
    if "c \<in> set cs" for c
    using ok that by (simp add: placed_def)
  have lenr: "real (length cs) \<le> 299" using len by simp
  have l: "49 \<le> radius ?l" "radius ?l \<le> 201" "\<bar>x ?l\<bar> \<le> 1100 + 403 * real (length cs)"
    "\<bar>y ?l\<bar> \<le> 1100 + 403 * real (length cs)"
    using cs_ok[of ?l] ne by simp_all
  have l3: "\<bar>x ?l\<bar> \<le> 3000000" "\<bar>y ?l\<bar> \<le> 3000000"
    using l(3,4) lenr by linarith+
  have trig: "\<bar>cos_m m ang - cos ang\<bar> \<le> 1 / 2 ^ 50" "\<bar>sin_m m ang - sin ang\<bar> \<le> 1 / 2 ^ 50"
    using m by (simp_all add: ieee_def)
  have l0: "0 \<le> radius ?l" "0 \<le> newR" using l(1) r(1) by linarith+
  note place = place_near[OF rnd trig l0(1) l(2) l0(2) r(2) l3, of "x nc" "y nc"]
  have xy: "x nc = round_m m (x ?l + round_m m (cos_m m ang * round_m m (radius ?l + newR)))"
           "y nc = round_m m (y ?l + round_m m (sin_m m ang * round_m m (radius ?l + newR)))"
           "radius nc = newR"
    by (simp_all add: nc)
  have touch0: "\<bar>sqrt ((x nc - x ?l)\<^sup>2 + (y nc - y ?l)\<^sup>2) - (radius ?l + newR)\<bar> \<le> 1 / 200000000"
    and step: "\<bar>x nc - x ?l\<bar> \<le> 403" "\<bar>y nc - y ?l\<bar> \<le> 403"
    using place[OF xy(1,2)] by simp_all
  have "centre_dist nc ?l = sqrt ((x nc - x ?l)\<^sup>2 + (y nc - y ?l)\<^sup>2)"
    by (simp add: centre_dist_def dist_p5_def power2_commute)
  then have touch: "\<bar>centre_dist nc ?l - (radius nc + radius ?l)\<bar> \<le> eps"
    using touch0 eps xy(3) by (simp add: add.commute)
  have ncb: "\<bar>x nc\<bar> \<le> 1100 + 403 * real (length (cs @ [nc]))"
            "\<bar>y nc\<bar> \<le> 1100 + 403 * real (length (cs @ [nc]))"
    using step l(3,4) by (simp_all add: algebra_simps)
  have sep: "radius c + radius nc - eps \<le> centre_dist c nc" if c: "c \<in> set cs" for c
  proof -
    have cb: "\<bar>x c\<bar> \<le> 200000" "\<bar>y c\<bar> \<le> 200000"
      using cs_ok[OF c] lenr by linarith+
    have nb: "\<bar>x nc\<bar> \<le> 200000" "\<bar>y nc\<bar> \<le> 200000"
      using step l(3,4) lenr by linarith+
    have hyp: "\<forall>u v. \<bar>u\<bar> \<le> 2 ^ 500 \<and> \<bar>v\<bar> \<le> 2 ^ 500
                \<longrightarrow> \<bar>hypot_m m u v - sqrt (u\<^sup>2 + v\<^sup>2)\<bar> \<le> sqrt (u\<^sup>2 + v\<^sup>2) / 2 ^ 50"
      using m by (simp add: ieee_def)
    have "\<not> hypot_m m (round_m m (x nc - x c)) (round_m m (y nc - y c)) < thr c"
      using far c by (simp add: dist_fl_def)
    from test_far[OF rnd hyp cb(1,2) nb this]
    have "thr c - 1 / 500000000 \<le> centre_dist c nc"
      by (simp add: centre_dist_def dist_p5_def)
    with clear c show ?thesis by blast
  qed
  have "tangent_chain eps (cs @ [nc])"
    using ok ne touch sep by (intro tangent_chain_snoc_near) (simp_all add: placed_def)
  moreover have "touching (1 / 100000000) (cs @ [nc])"
  proof (rule touching_snoc[OF _ ne])
    show "touching (1 / 100000000) cs" using ok by (simp add: placed_def)
    have "\<bar>centre_dist nc ?l - (radius ?l + newR)\<bar> \<le> 1 / 200000000"
      using touch0 \<open>centre_dist nc ?l = sqrt ((x nc - x ?l)\<^sup>2 + (y nc - y ?l)\<^sup>2)\<close> by simp
    then show "\<bar>centre_dist nc ?l - (radius nc + radius ?l)\<bar> \<le> 1 / 100000000"
      using xy(3) by (simp add: add.commute)
  qed
  moreover have "\<forall>c \<in> set (cs @ [nc]). 49 \<le> radius c \<and> radius c \<le> 201
            \<and> \<bar>x c\<bar> \<le> 1100 + 403 * real (length (cs @ [nc]))
            \<and> \<bar>y c\<bar> \<le> 1100 + 403 * real (length (cs @ [nc]))"
  proof
    fix c assume "c \<in> set (cs @ [nc])"
    then consider "c = nc" | "c \<in> set cs" by auto
    then show "49 \<le> radius c \<and> radius c \<le> 201
            \<and> \<bar>x c\<bar> \<le> 1100 + 403 * real (length (cs @ [nc]))
            \<and> \<bar>y c\<bar> \<le> 1100 + 403 * real (length (cs @ [nc]))"
    proof cases
      case 1
      then show ?thesis using ncb r xy(3) by simp
    next
      case 2
      from cs_ok[OF 2] show ?thesis by (simp add: algebra_simps)
    qed
  qed
  ultimately show ?thesis by (simp add: placed_def)
qed


lemma next_walk_fl_placed:
  assumes m: "ieee m" and rng: "valid_rng rng" and ok: "placed (1 / 100000000) cs"
    and ne: "cs \<noteq> []" and len: "length cs < MAX_CIRCLES_walk"
    and clear: "\<not> overlapsAny_walk_fl m cs (next_walk_fl m rng cs pos)"
  shows "placed (1 / 100000000) (cs @ [next_walk_fl m rng cs pos])"
proof -
  let ?n = "next_walk_fl m rng cs pos"
  define newR where "newR = random2_fl m MIN_R MAX_R (rng pos)"
  define ang where "ang = (if length cs < 30 then safeAngle_fl m (last cs) (rng (pos + 1))
                            else random1_fl m (TWO_PI_fl m) (rng (pos + 1)))"
  have u: "0 \<le> rng pos" "rng pos < 1" using rng by (simp_all add: valid_rng_def)
  have r: "49 \<le> newR" "newR \<le> 201"
    unfolding newR_def using radius_fl_range[OF m u] by simp_all
  have n: "?n = \<lparr>x = round_m m (x (last cs)
                          + round_m m (cos_m m ang * round_m m (radius (last cs) + newR))),
                   y = round_m m (y (last cs)
                          + round_m m (sin_m m ang * round_m m (radius (last cs) + newR))),
                   radius = newR, edge = None\<rparr>"
    by (simp add: next_walk_fl_def Let_def newR_def ang_def)
  have radii: "49 \<le> radius c \<and> radius c \<le> 201" if "c \<in> set cs" for c
    using ok that by (simp add: placed_def)
  show ?thesis
  proof (rule placed_push[OF m ok ne _ _ r n, where thr = "\<lambda>c. round_m m (radius c + radius ?n)"])
    show "length cs < 300" using len by (simp add: MAX_CIRCLES_walk_def)
    show "(1::real) / 200000000 \<le> 1 / 100000000" by simp
    show "\<forall>c \<in> set cs. round_m m (radius c + radius ?n) - 1 / 500000000 \<le> centre_dist c ?n
            \<longrightarrow> radius c + radius ?n - 1 / 100000000 \<le> centre_dist c ?n"
    proof (intro ballI impI)
      fix c assume c: "c \<in> set cs"
        and d: "round_m m (radius c + radius ?n) - 1 / 500000000 \<le> centre_dist c ?n"
      have "radius ?n = newR" by (simp add: n)
      then have "\<bar>radius c + radius ?n\<bar> \<le> 4000000" using radii[OF c] r by linarith
      from ieee_near[OF m this] d
      show "radius c + radius ?n - 1 / 100000000 \<le> centre_dist c ?n" by linarith
    qed
    show "\<forall>c \<in> set cs. \<not> dist_fl m (x c) (y c) (x ?n) (y ?n) < round_m m (radius c + radius ?n)"
      using clear by (simp add: overlapsAny_walk_fl_def)
  qed
qed

lemma grow_walk_fl_invariant:
  assumes step: "\<And>m rng cs pos. ieee m \<Longrightarrow> valid_rng rng \<Longrightarrow> P cs \<Longrightarrow> cs \<noteq> [] \<Longrightarrow>
                   length cs < MAX_CIRCLES_walk \<Longrightarrow>
                   \<not> overlapsAny_walk_fl m cs (next_walk_fl m rng cs pos)
                   \<Longrightarrow> P (cs @ [next_walk_fl m rng cs pos])"
  shows "ieee m \<Longrightarrow> valid_rng rng \<Longrightarrow> P cs \<Longrightarrow> cs \<noteq> []
           \<Longrightarrow> P (fst (grow_walk_fl m rng cs attempts pos))"
proof (induction m rng cs attempts pos rule: grow_walk_fl.induct)
  case (1 m rng cs attempts pos)
  let ?n = "next_walk_fl m rng cs pos"
  consider (stop) "\<not> (attempts + 1 < MAX_ATTEMPTS \<and> length cs < MAX_CIRCLES_walk)"
    | (skip) "attempts + 1 < MAX_ATTEMPTS \<and> length cs < MAX_CIRCLES_walk" "overlapsAny_walk_fl m cs ?n"
    | (break) "attempts + 1 < MAX_ATTEMPTS \<and> length cs < MAX_CIRCLES_walk" "\<not> overlapsAny_walk_fl m cs ?n"
        "30 \<le> length (cs @ [?n]) \<and> isOutside_fl m ?n"
    | (more) "attempts + 1 < MAX_ATTEMPTS \<and> length cs < MAX_CIRCLES_walk" "\<not> overlapsAny_walk_fl m cs ?n"
        "\<not> (30 \<le> length (cs @ [?n]) \<and> isOutside_fl m ?n)"
    by blast
  then show ?case
  proof cases
    case stop
    then have "grow_walk_fl m rng cs attempts pos = (cs, attempts + 1)"
      by (subst grow_walk_fl.simps) (simp only: stop if_True if_False simp_thms)
    then show ?thesis using "1.prems" by simp
  next
    case skip
    then have "grow_walk_fl m rng cs attempts pos = grow_walk_fl m rng cs (attempts + 1) (pos + 2)"
      by (subst grow_walk_fl.simps) (simp only: skip if_True if_False simp_thms)
    then show ?thesis using "1.IH"(1)[OF skip] "1.prems" by simp
  next
    case break
    then have "grow_walk_fl m rng cs attempts pos = (cs @ [?n], attempts + 1)"
      by (subst grow_walk_fl.simps) (simp only: break if_True if_False simp_thms)
    then show ?thesis using step[OF "1.prems" _ break(2)] break(1) by simp
  next
    case more
    then have "grow_walk_fl m rng cs attempts pos
                 = grow_walk_fl m rng (cs @ [?n]) (attempts + 1) (pos + 2)"
      by (subst grow_walk_fl.simps) (simp only: more if_True if_False simp_thms)
    then show ?thesis
      using "1.IH"(2)[OF more] step[OF "1.prems" _ more(2)] more(1) "1.prems"(1,2) by simp
  qed
qed


lemma edge_fl_range:
  assumes m: "ieee m" and r: "49 \<le> r0" "r0 \<le> 201"
  shows "878 \<le> round_m m (1080 - r0) \<and> round_m m (1080 - r0) \<le> 1032"
proof -
  have "\<bar>1080 - r0\<bar> \<le> 4000000" using r by linarith
  from ieee_near[OF m this] r show ?thesis by linarith
qed

lemma seed_walk_fl_placed:
  assumes m: "ieee m" and rng: "valid_rng rng" and eps: "0 \<le> eps"
  shows "placed eps [fst (seed_walk_fl m rng)]"
proof -
  define r0 where "r0 = random2_fl m MIN_R MAX_R (rng 1)"
  have u: "0 \<le> rng n" "rng n < 1" for n using rng by (simp_all add: valid_rng_def)
  have r: "49 \<le> r0" "r0 \<le> 201"
    unfolding r0_def using radius_fl_range[OF m u] by simp_all
  note e = edge_fl_range[OF m r]
  have mid: "\<bar>random2_fl m r0 (round_m m (1080 - r0)) (rng n)\<bar> \<le> 1100" for n
  proof -
    have "\<bar>r0\<bar> \<le> 2000" "\<bar>round_m m (1080 - r0)\<bar> \<le> 2000" using r e by linarith+
    from random2_fl_range[OF m this u[of n]]
    have "min r0 (round_m m (1080 - r0)) - 1 / 500000000
            \<le> random2_fl m r0 (round_m m (1080 - r0)) (rng n)"
      and "random2_fl m r0 (round_m m (1080 - r0)) (rng n)
            \<le> max r0 (round_m m (1080 - r0)) + 1 / 500000000"
      by simp_all
    with r e show ?thesis by linarith
  qed
  have rad: "radius (fst (seed_walk_fl m rng)) = r0"
    by (simp add: seed_walk_fl_def Let_def split_def r0_def)
  have sx: "x (fst (seed_walk_fl m rng)) = r0
            \<or> x (fst (seed_walk_fl m rng)) = round_m m (1080 - r0)
            \<or> (\<exists>n. x (fst (seed_walk_fl m rng)) = random2_fl m r0 (round_m m (1080 - r0)) (rng n))"
    by (auto simp: seed_walk_fl_def Let_def split_def r0_def width_def CANVAS_W_def)
  have sy: "y (fst (seed_walk_fl m rng)) = r0
            \<or> y (fst (seed_walk_fl m rng)) = round_m m (1080 - r0)
            \<or> (\<exists>n. y (fst (seed_walk_fl m rng)) = random2_fl m r0 (round_m m (1080 - r0)) (rng n))"
    by (auto simp: seed_walk_fl_def Let_def split_def r0_def height_def CANVAS_H_def)
  have any: "\<bar>v\<bar> \<le> 1100"
    if "v = r0 \<or> v = round_m m (1080 - r0)
        \<or> (\<exists>n. v = random2_fl m r0 (round_m m (1080 - r0)) (rng n))" for v
  proof -
    from that consider "v = r0" | "v = round_m m (1080 - r0)"
      | n where "v = random2_fl m r0 (round_m m (1080 - r0)) (rng n)"
      by blast
    then show ?thesis
    proof cases
      case 1
      then show ?thesis using r by linarith
    next
      case 2
      then show ?thesis using e by linarith
    next
      case 3
      then show ?thesis using mid[of n] by simp
    qed
  qed
  show ?thesis
    using r eps rad any[OF sx] any[OF sy] by (intro placed_single) simp_all
qed

lemma walk_fl_placed:
  assumes "ieee m" "valid_rng rng"
  shows "placed (1 / 100000000) (generateTouchingCircles_walk_fl m rng)"
  unfolding generateTouchingCircles_walk_fl_def
  by (rule grow_walk_fl_invariant[where P = "placed (1 / 100000000)"])
     (use assms in \<open>simp_all add: next_walk_fl_placed seed_walk_fl_placed\<close>)

lemma dfs_fl_frame:
  "circles (dfs_fl m rng s) = circles s"
  "circles (fan_fl m rng lst angs s) = circles s"
proof (induction m rng s and m rng lst angs s rule: dfs_fl_fan_fl.induct)
  case (1 m rng s)
  then show ?case by (subst dfs_fl.simps) simp
next
  case (2 m rng lst s)
  then show ?case by (simp add: fan_fl.simps)
next
  case (3 m rng lst ang angs s)
  then show ?case by (subst fan_fl.simps) simp
qed

lemma dfs_fl_invariant:
  fixes P :: "circle list \<Rightarrow> bool"
  assumes step: "\<And>m cs ang newR. ieee m \<Longrightarrow> P cs \<Longrightarrow> cs \<noteq> [] \<Longrightarrow> length cs < MAX_CIRCLES_dfs \<Longrightarrow>
                 49 \<le> newR \<Longrightarrow> newR \<le> 201 \<Longrightarrow>
                 \<not> overlapsAny_dfs_fl m cs (candidate_fl m (last cs) ang newR) \<Longrightarrow>
                 P (cs @ [candidate_fl m (last cs) ang newR])"
  shows "ieee m \<Longrightarrow> valid_rng rng \<Longrightarrow> P (circles s) \<Longrightarrow> circles s \<noteq> [] \<Longrightarrow> P (bestCircles s)
           \<Longrightarrow> P (bestCircles (dfs_fl m rng s))"
    and "ieee m \<Longrightarrow> valid_rng rng \<Longrightarrow> P (circles s) \<Longrightarrow> circles s \<noteq> [] \<Longrightarrow> P (bestCircles s)
           \<Longrightarrow> length (circles s) < MAX_CIRCLES_dfs \<Longrightarrow> lst = last (circles s)
           \<Longrightarrow> P (bestCircles (fan_fl m rng lst angs s))"
proof (induction m rng s and m rng lst angs s rule: dfs_fl_fan_fl.induct)
  case (1 m rng s)
  let ?t = "record_best (count_try s)"
  have Pt: "P (bestCircles ?t)"
    using "1.prems"(3,5) by (auto simp: record_best_def count_try_def)
  consider (spent) "MAX_TOTAL_TRIES < totalTries (count_try s)"
    | (cap) "\<not> MAX_TOTAL_TRIES < totalTries (count_try s)" "MAX_CIRCLES_dfs \<le> length (circles ?t)"
    | (go) "\<not> MAX_TOTAL_TRIES < totalTries (count_try s)" "\<not> MAX_CIRCLES_dfs \<le> length (circles ?t)"
    by blast
  then show ?case
  proof cases
    case spent
    then have "dfs_fl m rng s = count_try s" by (subst dfs_fl.simps) simp
    then show ?thesis using "1.prems"(5) by simp
  next
    case cap
    then have "dfs_fl m rng s = ?t" by (subst dfs_fl.simps) simp
    then show ?thesis using Pt by simp
  next
    case go
    then have eq: "dfs_fl m rng s = fan_fl m rng (last (circles ?t)) (loop_angles m) ?t"
      by (subst dfs_fl.simps) simp
    have "P (bestCircles (fan_fl m rng (last (circles ?t)) (loop_angles m) ?t))"
      using go "1.prems" Pt by (intro "1.IH") simp_all
    then show ?thesis by (simp only: eq)
  qed
next
  case (2 m rng lst s)
  then show ?case by (simp add: fan_fl.simps)
next
  case (3 m rng lst ang angs s)
  let ?c = "candidate_fl m lst ang (draw_radius_fl m rng s)"
  let ?t = "push_fl m ?c (advance s)"
  let ?u = "pop_fl m ?c (dfs_fl m rng ?t)"
  show ?case
  proof (cases "overlapsAny_dfs_fl m (circles (advance s)) ?c")
    case True
    then have eq: "fan_fl m rng lst (ang # angs) s = fan_fl m rng lst angs (advance s)"
      by (subst fan_fl.simps) simp
    have "P (bestCircles (fan_fl m rng lst angs (advance s)))"
      using True "3.prems" by (intro "3.IH"(1)) simp_all
    then show ?thesis by (simp only: eq)
  next
    case False
    then have eq: "fan_fl m rng lst (ang # angs) s = fan_fl m rng lst angs ?u"
      by (subst fan_fl.simps) simp
    have u: "0 \<le> rng (cursor s)" "rng (cursor s) < 1"
      using "3.prems"(2) by (simp_all add: valid_rng_def)
    have r: "49 \<le> draw_radius_fl m rng s" "draw_radius_fl m rng s \<le> 201"
      unfolding draw_radius_fl_def using radius_fl_range[OF "3.prems"(1) u] by simp_all
    have "P (circles s @ [candidate_fl m (last (circles s)) ang (draw_radius_fl m rng s)])"
      using "3.prems"(1,3,4,6) r False "3.prems"(7) by (intro step) simp_all
    then have Pt: "P (circles ?t)" using "3.prems"(7) by simp
    have Pd: "P (bestCircles (dfs_fl m rng ?t))"
      using False Pt "3.prems"(1,2,5) by (intro "3.IH"(2)) simp_all
    have cu: "circles ?u = circles s"
      by (simp add: dfs_fl_frame)
    have "P (bestCircles (fan_fl m rng lst angs ?u))"
      using False "3.prems" Pd cu by (intro "3.IH"(3)) simp_all
    then show ?thesis by (simp only: eq)
  qed
qed

lemma candidate_fl_placed:
  assumes m: "ieee m" and ok: "placed (1 / 10 + 1 / 100000000) cs"
    and ne: "cs \<noteq> []" and len: "length cs < MAX_CIRCLES_dfs"
    and r: "49 \<le> newR" "newR \<le> 201"
    and clear: "\<not> overlapsAny_dfs_fl m cs (candidate_fl m (last cs) ang newR)"
  shows "placed (1 / 10 + 1 / 100000000) (cs @ [candidate_fl m (last cs) ang newR])"
proof -
  let ?n = "candidate_fl m (last cs) ang newR"
  have n: "?n = \<lparr>x = round_m m (x (last cs)
                          + round_m m (cos_m m ang * round_m m (radius (last cs) + newR))),
                   y = round_m m (y (last cs)
                          + round_m m (sin_m m ang * round_m m (radius (last cs) + newR))),
                   radius = newR, edge = None\<rparr>"
    by (simp add: candidate_fl_def Let_def)
  have radii: "49 \<le> radius c \<and> radius c \<le> 201" if "c \<in> set cs" for c
    using ok that by (simp add: placed_def)
  show ?thesis
  proof (rule placed_push[OF m ok ne _ _ r n,
          where thr = "\<lambda>c. round_m m (round_m m (radius c + radius ?n) - round_m m (1 / 10))"])
    show "length cs < 300" using len by (simp add: MAX_CIRCLES_dfs_def)
    show "(1::real) / 200000000 \<le> 1 / 10 + 1 / 100000000" by simp
    show "\<forall>c \<in> set cs.
            round_m m (round_m m (radius c + radius ?n) - round_m m (1 / 10)) - 1 / 500000000
              \<le> centre_dist c ?n
            \<longrightarrow> radius c + radius ?n - (1 / 10 + 1 / 100000000) \<le> centre_dist c ?n"
    proof (intro ballI impI)
      fix c assume c: "c \<in> set cs"
        and d: "round_m m (round_m m (radius c + radius ?n) - round_m m (1 / 10)) - 1 / 500000000
                  \<le> centre_dist c ?n"
      define a where "a = round_m m (radius c + radius ?n)"
      define b where "b = round_m m (1 / 10)"
      have "radius ?n = newR" by (simp add: n)
      then have "\<bar>radius c + radius ?n\<bar> \<le> 4000000" using radii[OF c] r by linarith
      from ieee_near[OF m this] have a: "\<bar>a - (radius c + radius ?n)\<bar> \<le> 1 / 2000000000"
        by (simp add: a_def)
      have b: "\<bar>b - 1 / 10\<bar> \<le> 1 / 2000000000"
        unfolding b_def by (rule ieee_near[OF m]) simp
      have "\<bar>a - b\<bar> \<le> 4000000" using a b radii[OF c] r \<open>radius ?n = newR\<close> by linarith
      from ieee_near[OF m this] have "\<bar>round_m m (a - b) - (a - b)\<bar> \<le> 1 / 2000000000" .
      moreover have "round_m m (a - b) - 1 / 500000000 \<le> centre_dist c ?n"
        using d by (simp add: a_def b_def)
      ultimately show "radius c + radius ?n - (1 / 10 + 1 / 100000000) \<le> centre_dist c ?n"
        using a b by linarith
    qed
    show "\<forall>c \<in> set cs. \<not> dist_fl m (x c) (y c) (x ?n) (y ?n)
             < round_m m (round_m m (radius c + radius ?n) - round_m m (1 / 10))"
      using clear by (simp add: overlapsAny_dfs_fl_def)
  qed
qed

lemma seed_dfs_fl_placed:
  assumes m: "ieee m" and rng: "valid_rng rng" and eps: "0 \<le> eps"
  shows "placed eps [fst (seed_dfs_fl m rng)]"
proof -
  define r0 where "r0 = random2_fl m MIN_R MAX_R (rng 1)"
  define h where "h = round_m m (r0 * (1 / 2))"
  define g where "g = round_m m (1080 - h)"
  have u: "0 \<le> rng n" "rng n < 1" for n using rng by (simp_all add: valid_rng_def)
  have r: "49 \<le> r0" "r0 \<le> 201"
    unfolding r0_def using radius_fl_range[OF m u] by simp_all
  have "r0 * (1 / 2) = r0 / 2" by simp
  then have "\<bar>r0 * (1 / 2)\<bar> \<le> 4000000" "24 \<le> r0 * (1 / 2) - 1 / 2000000000"
    "r0 * (1 / 2) + 1 / 2000000000 \<le> 101"
    using r by linarith+
  with ieee_near[OF m, of "r0 * (1 / 2)"] have h: "24 \<le> h" "h \<le> 101"
    unfolding h_def by linarith+
  then have "\<bar>1080 - h\<bar> \<le> 4000000" by linarith
  from ieee_near[OF m this] h have g: "978 \<le> g" "g \<le> 1057"
    unfolding g_def by linarith+
  have mid: "\<bar>random2_fl m h g (rng n)\<bar> \<le> 1100" for n
  proof -
    have "\<bar>h\<bar> \<le> 2000" "\<bar>g\<bar> \<le> 2000" using h g by linarith+
    from random2_fl_range[OF m this u[of n]]
    have "min h g - 1 / 500000000 \<le> random2_fl m h g (rng n)"
      and "random2_fl m h g (rng n) \<le> max h g + 1 / 500000000"
      by simp_all
    with h g show ?thesis by linarith
  qed
  have rad: "radius (fst (seed_dfs_fl m rng)) = r0"
    by (simp add: seed_dfs_fl_def Let_def split_def r0_def)
  have sx: "x (fst (seed_dfs_fl m rng)) = h \<or> x (fst (seed_dfs_fl m rng)) = g
            \<or> (\<exists>n. x (fst (seed_dfs_fl m rng)) = random2_fl m h g (rng n))"
    by (auto simp: seed_dfs_fl_def Let_def split_def r0_def h_def g_def CANVAS_W_def)
  have sy: "y (fst (seed_dfs_fl m rng)) = h \<or> y (fst (seed_dfs_fl m rng)) = g
            \<or> (\<exists>n. y (fst (seed_dfs_fl m rng)) = random2_fl m h g (rng n))"
    by (auto simp: seed_dfs_fl_def Let_def split_def r0_def h_def g_def CANVAS_H_def)
  have any: "\<bar>v\<bar> \<le> 1100"
    if "v = h \<or> v = g \<or> (\<exists>n. v = random2_fl m h g (rng n))" for v
  proof -
    from that consider "v = h" | "v = g" | n where "v = random2_fl m h g (rng n)"
      by blast
    then show ?thesis
    proof cases
      case 1
      then show ?thesis using h by linarith
    next
      case 2
      then show ?thesis using g by linarith
    next
      case 3
      then show ?thesis using mid[of n] by simp
    qed
  qed
  show ?thesis
    using r eps rad any[OF sx] any[OF sy] by (intro placed_single) simp_all
qed

lemma dfs_fl_placed:
  assumes m: "ieee m" and rng: "valid_rng rng"
  shows "placed (1 / 10 + 1 / 100000000) (generateTouchingCircles_dfs_fl m rng)"
  unfolding generateTouchingCircles_dfs_fl_def
proof (rule dfs_fl_invariant(1)[where P = "placed (1 / 10 + 1 / 100000000)", OF _ m rng])
  have seed: "placed (1 / 10 + 1 / 100000000) [fst (seed_dfs_fl m rng)]"
    using m rng by (rule seed_dfs_fl_placed) simp
  then show "placed (1 / 10 + 1 / 100000000) (circles (search_start_fl m rng))"
    and "placed (1 / 10 + 1 / 100000000) (bestCircles (search_start_fl m rng))"
    by (simp_all only: search_start_fl_def Let_def search.simps)
  show "circles (search_start_fl m rng) \<noteq> []"
    by (simp add: search_start_fl_def Let_def)
qed (rule candidate_fl_placed)


text \<open>The cut-off of \<open>loop_angles\<close> is never reached: the angle passes \<open>TWO_PI\<close> within 66
  additions of \<open>ANGLE_STEP\<close>.\<close>

lemma takeWhile_stops:
  assumes "j < length xs" "\<not> P (xs ! j)"
  shows "length (takeWhile P xs) \<le> j"
proof (rule ccontr)
  assume "\<not> length (takeWhile P xs) \<le> j"
  then have j: "j < length (takeWhile P xs)" by simp
  then have "takeWhile P xs ! j = xs ! j" by (rule takeWhile_nth)
  moreover have "takeWhile P xs ! j \<in> set (takeWhile P xs)" using j by simp
  ultimately have "P (xs ! j)" by (metis set_takeWhileD)
  with assms(2) show False by simp
qed

lemma loop_angles_complete:
  assumes m: "ieee m"
  shows "length (loop_angles m) \<le> 66"
proof -
  define e :: real where "e = 1 / 2000000000"
  have e: "0 < e" "e \<le> 1 / 2000000000" by (simp_all add: e_def)
  define step where "step = ANGLE_STEP_fl m"
  define it where "it = (\<lambda>ang. round_m m (ang + step))"
  have near: "\<bar>round_m m v - v\<bar> \<le> e" if "\<bar>v\<bar> \<le> 4000000" for v
    using ieee_near[OF m that] by (simp add: e_def)
  have p: "2 \<le> pi" "pi < 4" using pi_ge_two pi_less_4 by simp_all
  have P: "\<bar>PI_fl m - pi\<bar> \<le> e" unfolding PI_fl_def using p by (intro near) linarith
  have "\<bar>PI_fl m * 2\<bar> \<le> 4000000" using P p e by linarith
  from near[OF this] have T: "\<bar>TWO_PI_fl m - PI_fl m * 2\<bar> \<le> e" by (simp add: TWO_PI_fl_def)
  have Tr: "3 \<le> TWO_PI_fl m" "TWO_PI_fl m \<le> 9" using T P p e by linarith+
  define q where "q = TWO_PI_fl m / 64"
  have q: "64 * q = TWO_PI_fl m" by (simp add: q_def)
  have "\<bar>q\<bar> \<le> 4000000" using Tr q by linarith
  from near[OF this] have S: "\<bar>step - q\<bar> \<le> e"
    by (simp add: step_def ANGLE_STEP_fl_def q_def)
  have Sr: "0 \<le> step - e" "step + e \<le> 1" using S Tr q e by linarith+
  have grow: "k \<le> 100 \<Longrightarrow>
      real k * (step - e) \<le> (it ^^ k) 0 \<and> (it ^^ k) 0 \<le> real k * (step + e)" for k
  proof (induction k)
    case 0
    then show ?case by simp
  next
    case (Suc k)
    define a where "a = (it ^^ k) 0"
    have a: "real k * (step - e) \<le> a" "a \<le> real k * (step + e)"
      using Suc by (simp_all add: a_def)
    have "0 \<le> real k * (step - e)" using Sr by simp
    moreover have "real k * (step + e) \<le> real k * 1"
      using Sr by (intro mult_left_mono) simp_all
    moreover have "real k \<le> 100" using Suc.prems by simp
    ultimately have ar: "0 \<le> a" "a \<le> 100" using a by linarith+
    then have "\<bar>a + step\<bar> \<le> 4000000" using Sr e by linarith
    from near[OF this] have ia: "\<bar>it a - (a + step)\<bar> \<le> e" by (simp add: it_def)
    define lo where "lo = real k * (step - e)"
    define hi where "hi = real k * (step + e)"
    have "lo + (step - e) \<le> it a" "it a \<le> hi + (step + e)"
      using ia a unfolding lo_def hi_def by linarith+
    moreover have "(it ^^ Suc k) 0 = it a" by (simp add: a_def)
    moreover have "real (Suc k) * (step - e) = lo + (step - e)"
                  "real (Suc k) * (step + e) = hi + (step + e)"
      by (simp_all add: algebra_simps lo_def hi_def)
    ultimately show ?case by simp
  qed
  have "66 * (step - e) \<le> (it ^^ 66) 0" using grow[of 66] by simp
  moreover have "66 * (step - e) = 66 * step - 66 * e" by simp
  ultimately have "66 * step - 66 * e \<le> (it ^^ 66) 0" by simp
  moreover have "q - e \<le> step" using S by linarith
  ultimately have past: "\<not> (it ^^ 66) 0 < TWO_PI_fl m"
    using q Tr e by linarith
  let ?xs = "map (\<lambda>k. ((\<lambda>ang. round_m m (ang + ANGLE_STEP_fl m)) ^^ k) 0) [0 ..< 99]"
  have "?xs ! 66 = (it ^^ 66) 0"
    by (simp add: it_def step_def)
  with past have "\<not> (\<lambda>ang. ang < TWO_PI_fl m) (?xs ! 66)" by simp
  moreover have "66 < length ?xs" by simp
  ultimately show ?thesis
    unfolding loop_angles_def by (intro takeWhile_stops)
qed


lemma ieee_worst_machine: "ieee worst_machine"
  by (simp add: ieee_def worst_machine_def rounds_worst)

text \<open>
  C1. On every machine that meets \<open>ieee\<close> and for all raw draws in \<open>[0, 1)\<close>, the chains both
  generators return are tangent chains of the doubles they store. Greedy walk: each circle
  but the first is at distance \<open>radius\<^sub>i + radius\<^sub>i\<^sub>-\<^sub>1\<close> from its predecessor within \<open>10\<^sup>-\<^sup>8\<close>, and
  circles whose indices differ by more than one are at least the sum of their radii minus
  \<open>10\<^sup>-\<^sup>8\<close> apart. Back-tracking search: consecutive circles touch within \<open>10\<^sup>-\<^sup>8\<close> as well, and
  non-adjacent circles are at least the sum of their radii minus \<open>0.1 + 10\<^sup>-\<^sup>8\<close> apart, \<open>0.1\<close>
  being the tolerance of its overlap test.
\<close>

theorem generated_chains_tangent_within_rounding:
  assumes "ieee m" "valid_rng rng"
  shows "tangent_chain (1 / 100000000) (generateTouchingCircles_walk_fl m rng)
         \<and> tangent_chain (1 / 10 + 1 / 100000000) (generateTouchingCircles_dfs_fl m rng)
         \<and> touching (1 / 100000000) (generateTouchingCircles_dfs_fl m rng)"
  using walk_fl_placed[OF assms] dfs_fl_placed[OF assms] by (simp only: placed_def)

theorem generated_chains_tangent_within_rounding_witness:
  "ieee worst_machine \<and> valid_rng rng_zero
   \<and> tangent_chain (1 / 100000000) (generateTouchingCircles_walk_fl worst_machine rng_zero)
   \<and> tangent_chain (1 / 10 + 1 / 100000000) (generateTouchingCircles_dfs_fl worst_machine rng_zero)
   \<and> touching (1 / 100000000) (generateTouchingCircles_dfs_fl worst_machine rng_zero)"
  using generated_chains_tangent_within_rounding[OF ieee_worst_machine valid_rng_zero] ieee_worst_machine valid_rng_zero by blast

text \<open>The chain the search hands to the viewport fit is within the range for which the
  bounds of the fit are proved, so the fitted chain of every run is within them.\<close>

lemma dfs_fl_chain_in_range:
  assumes m: "ieee m" and rng: "valid_rng rng"
  shows "generateTouchingCircles_dfs_fl m rng \<noteq> []
         \<and> (\<forall>c \<in> set (generateTouchingCircles_dfs_fl m rng).
               1 \<le> radius c \<and> \<bar>x c\<bar> + radius c \<le> 1000000 \<and> \<bar>y c\<bar> + radius c \<le> 1000000)"
proof -
  let ?e = "1 / 10 + 1 / 100000000 :: real"
  let ?P = "\<lambda>cs. cs \<noteq> [] \<and> length cs \<le> MAX_CIRCLES_dfs \<and> placed ?e cs"
  have seed: "placed ?e [fst (seed_dfs_fl m rng)]"
    using m rng by (rule seed_dfs_fl_placed) simp
  have "?P (bestCircles (dfs_fl m rng (search_start_fl m rng)))"
  proof (rule dfs_fl_invariant(1)[where P = ?P, OF _ m rng])
    show "?P (circles (search_start_fl m rng))" "?P (bestCircles (search_start_fl m rng))"
      using seed by (simp_all add: search_start_fl_def Let_def MAX_CIRCLES_dfs_def)
    show "circles (search_start_fl m rng) \<noteq> []"
      by (simp add: search_start_fl_def Let_def)
  next
    fix m cs ang newR
    assume "ieee m" "?P cs" "cs \<noteq> []" "length cs < MAX_CIRCLES_dfs" "49 \<le> newR" "newR \<le> 201"
      "\<not> overlapsAny_dfs_fl m cs (candidate_fl m (last cs) ang newR)"
    then show "?P (cs @ [candidate_fl m (last cs) ang newR])"
      using candidate_fl_placed[of m cs newR ang] by simp
  qed
  then have g: "generateTouchingCircles_dfs_fl m rng \<noteq> []"
    "length (generateTouchingCircles_dfs_fl m rng) \<le> 300"
    "placed ?e (generateTouchingCircles_dfs_fl m rng)"
    by (simp_all add: generateTouchingCircles_dfs_fl_def MAX_CIRCLES_dfs_def)
  have "1 \<le> radius c \<and> \<bar>x c\<bar> + radius c \<le> 1000000 \<and> \<bar>y c\<bar> + radius c \<le> 1000000"
    if c: "c \<in> set (generateTouchingCircles_dfs_fl m rng)" for c
  proof -
    have "real (length (generateTouchingCircles_dfs_fl m rng)) \<le> 300" using g(2) by simp
    moreover have "49 \<le> radius c" "radius c \<le> 201"
      "\<bar>x c\<bar> \<le> 1100 + 403 * real (length (generateTouchingCircles_dfs_fl m rng))"
      "\<bar>y c\<bar> \<le> 1100 + 403 * real (length (generateTouchingCircles_dfs_fl m rng))"
      using g(3) c by (simp_all add: placed_def)
    ultimately show ?thesis by linarith
  qed
  with g(1) show ?thesis by blast
qed

lemma fit_of_generated_chain:
  assumes m: "ieee m" and rng: "valid_rng rng"
  shows "\<exists>minX' maxX' minY' maxY'.
       bounding_box (fitRibbonToViewport_fl (round_m m) (generateTouchingCircles_dfs_fl m rng))
         = Some (minX', maxX', minY', maxY')
     \<and> maxX' - minX' \<le> 1040 + 1 / 100000000
     \<and> maxY' - minY' \<le> 1040 + 1 / 100000000
     \<and> \<bar>(minX' + maxX') / 2 - 540\<bar> \<le> 1 / 100000000
     \<and> \<bar>(minY' + maxY') / 2 - 540\<bar> \<le> 1 / 100000000"
proof -
  have r: "rounds (round_m m)" using m by (simp add: ieee_def)
  note g = dfs_fl_chain_in_range[OF m rng]
  from fit_fl_box[OF r conjunct1[OF g] conjunct2[OF g]] show ?thesis by blast
qed

subsection \<open>The seed stays first\<close>

lemma fit_keeps_edges: "map edge (fitRibbonToViewport cs) = map edge cs"
  by (cases "bounding_box cs") (auto simp: fitRibbonToViewport_def Let_def)

lemma fit_head:
  assumes "cs \<noteq> []"
  shows "fitRibbonToViewport cs \<noteq> [] \<and> edge (hd (fitRibbonToViewport cs)) = edge (hd cs)"
proof -
  have len: "length (fitRibbonToViewport cs) = length cs"
    using fit_keeps_edges[of cs] by (metis length_map)
  with assms have ne: "fitRibbonToViewport cs \<noteq> []" by auto
  have "hd (map edge (fitRibbonToViewport cs)) = hd (map edge cs)"
    by (simp only: fit_keeps_edges)
  with ne assms show ?thesis by (simp add: hd_map)
qed

lemma edgeAngle_defined: "edge c = Some e \<Longrightarrow> 0 \<le> e \<Longrightarrow> e < 4 \<Longrightarrow> edgeAngle c \<noteq> None"
  by (simp add: edgeAngle_def)

lemma fillVoids_head:
  assumes "cs \<noteq> []" "fillVoids helper rng attempts pos cs = Inr cs'"
  shows "cs' \<noteq> [] \<and> hd cs' = hd cs"
proof -
  from assms(2) obtain fs where "cs' = cs @ fs" using fillVoids_prefix by blast
  with assms(1) show ?thesis by simp
qed

text \<open>
  C10. In both generators index 0 of the returned list is the seed, whose \<open>edge\<close> is one of
  \<open>0, 1, 2, 3\<close> (the back-tracking generator returns a copy of a chain that starts with the
  seed); the viewport fit changes position and radius of the first circle but not its
  \<open>edge\<close>; the void filler, when it returns, has only appended. So the edge-angle lookup of
  \<open>buildArcList\<close> on \<open>circles[0].edge\<close> is defined at every stage.
\<close>

theorem seed_kept_at_index_0:
  assumes "valid_rng rng"
  shows "let seedA = fst (seed_walk rng); seedB = fst (seed_dfs rng);
             walked = generateTouchingCircles_walk rng;
             searched = generateTouchingCircles_dfs rng;
             fitted = fitRibbonToViewport searched
         in edge seedA \<in> Some ` {0, 1, 2, 3} \<and> edge seedB \<in> Some ` {0, 1, 2, 3}
            \<and> walked \<noteq> [] \<and> hd walked = seedA \<and> edgeAngle (hd walked) \<noteq> None
            \<and> searched \<noteq> [] \<and> hd searched = seedB \<and> edgeAngle (hd searched) \<noteq> None
            \<and> fitted \<noteq> [] \<and> edge (hd fitted) = edge seedB \<and> edgeAngle (hd fitted) \<noteq> None
            \<and> (\<forall>cs'. fillVoids helper rng attempts pos fitted = Inr cs'
                   \<longrightarrow> cs' \<noteq> [] \<and> hd cs' = hd fitted \<and> edgeAngle (hd cs') \<noteq> None)"
proof -
  let ?e = "\<lfloor>random1 4 (rng 0)\<rfloor>"
  have e: "0 \<le> ?e" "?e < 4" using seed_edge_range[OF assms] by simp_all
  then have "?e = 0 \<or> ?e = 1 \<or> ?e = 2 \<or> ?e = 3" by linarith
  then have mem: "Some ?e \<in> Some ` {0, 1, 2, 3}" by auto
  have eA: "edge (fst (seed_walk rng)) = Some ?e" and eB: "edge (fst (seed_dfs rng)) = Some ?e"
    by (simp_all add: seed_walk_fields seed_dfs_fields)
  have angle: "\<And>c. edge c = Some ?e \<Longrightarrow> edgeAngle c \<noteq> None"
    using e by (rule edgeAngle_defined[rotated])
  note w = walk_seed[OF assms] and d = dfs_best_seed[OF assms]
  note f = fit_head[of "generateTouchingCircles_dfs rng"]
  have fe: "edge (hd (fitRibbonToViewport (generateTouchingCircles_dfs rng))) = Some ?e"
    using f d eB by simp
  show ?thesis
    unfolding Let_def
    using mem eA eB w d f fe angle[OF eA] angle[OF eB] angle[OF fe]
    by (auto dest!: fillVoids_head[rotated])
qed

theorem seed_kept_at_index_0_witness:
  "hd (generateTouchingCircles_walk rng_zero) = fst (seed_walk rng_zero)
   \<and> hd (generateTouchingCircles_dfs rng_zero) = fst (seed_dfs rng_zero)
   \<and> edgeAngle (hd (fitRibbonToViewport (generateTouchingCircles_dfs rng_zero))) \<noteq> None"
  using seed_kept_at_index_0[of rng_zero] by (simp add: valid_rng_zero Let_def)

subsection \<open>Setup of the perspective sketch\<close>

lemma dfs_best_radii:
  assumes "valid_rng rng"
  shows "\<forall>c \<in> set (generateTouchingCircles_dfs rng). MIN_R \<le> radius c"
  unfolding generateTouchingCircles_dfs_def
proof (rule best_invariant(1)[where P = "\<lambda>cs. \<forall>c \<in> set cs. MIN_R \<le> radius c"])
  show "\<forall>c \<in> set (circles (search_start rng)). MIN_R \<le> radius c"
       "\<forall>c \<in> set (bestCircles (search_start rng)). MIN_R \<le> radius c"
    using seed_radius_range[OF assms, of 1] by (simp_all add: seed_dfs_fields)
qed (use assms in \<open>simp_all add: candidate_def Let_def\<close>)

lemma fitted_margin:
  assumes ne: "cs \<noteq> []" and pos: "\<forall>c \<in> set cs. 0 < radius c"
  shows "\<forall>c \<in> set (fitRibbonToViewport cs). VIEW_PAD \<le> x c - radius c"
proof -
  from fit_box[OF ne pos] obtain minX' maxX' minY' maxY' where
    box: "bounding_box (fitRibbonToViewport cs) = Some (minX', maxX', minY', maxY')"
    and w: "maxX' - minX' \<le> VIEWPORT - 2 * VIEW_PAD"
    and m: "(minX' + maxX') / 2 = CANVAS_W / 2"
    by blast
  have lo: "VIEW_PAD \<le> minX'"
    using w m by (simp add: VIEWPORT_def CANVAS_W_def VIEW_PAD_def)
  have "fitRibbonToViewport cs \<noteq> []"
    using box by (auto simp: bounding_box_def)
  from bounding_box_nonempty[OF this] box
  have "minX' = Min ((\<lambda>c. x c - radius c) ` set (fitRibbonToViewport cs))"
    by simp
  then have "\<forall>c \<in> set (fitRibbonToViewport cs). minX' \<le> x c - radius c"
    by simp
  with lo show ?thesis by force
qed

lemma filler_zero: "filler rng_zero pos = \<lparr>x = 0, y = 0, radius = 12, edge = None\<rparr>"
  by (simp add: filler_def rng_zero_def random1_def random2_def)

text \<open>
  C3. The claim: \<open>fillVoids\<close> keeps a candidate only if it overlaps no circle and lies inside
  the viewport, and every call runs its 2000 attempts without a runtime error in the
  acceptance test. As the repository stands the second test cannot run: the first
  candidate that overlaps nothing reaches the call of the undefined \<open>fullyInsideViewport\<close>.
  With all raw draws \<open>0\<close> that is the very first candidate, the circle of radius 12 at the
  origin: the fitted chain keeps the margin \<open>VIEW_PAD\<close> from the left edge. \<open>setup\<close> ends with
  the exception and no arc list is built.
\<close>

theorem fillVoids_throws_ReferenceError: "setup_persp None rng_zero = Inl ReferenceError"
proof -
  let ?g = "generateTouchingCircles_dfs rng_zero"
  let ?f = "fitRibbonToViewport ?g"
  let ?c = "\<lparr>x = 0, y = 0, radius = 12, edge = None\<rparr> :: circle"
  have ne: "?g \<noteq> []"
    using dfs_best_seed[OF valid_rng_zero] by simp
  have pos: "\<forall>c \<in> set ?g. 0 < radius c"
    using dfs_best_radii[OF valid_rng_zero] by (auto simp: MIN_R_def)
  have margin: "\<forall>c \<in> set ?f. VIEW_PAD \<le> x c - radius c"
    using ne pos by (rule fitted_margin)
  have "\<not> overlapsAny_dfs ?f ?c"
    unfolding overlapsAny_dfs_def bex_simps
  proof (intro ballI far_apart_x)
    fix c assume "c \<in> set ?f"
    with margin have "20 \<le> x c - radius c" by (simp add: VIEW_PAD_def)
    then show "radius c + radius ?c - 1 / 10 \<le> \<bar>x ?c - x c\<bar>" by simp
  qed
  then have "fillVoids None rng_zero 2000 pos ?f = Inl ReferenceError" for pos
    by (intro fillVoids_undefined_helper) (simp_all add: filler_zero)
  then show ?thesis
    by (simp add: setup_persp_def Let_def generateTouchingCircles_dfs_def)
qed



subsection \<open>The arc list and the void filler\<close>















end
